theory Spec2Isabelle
  imports Main "HOL-Library.Finite_Map"
begin

section \<open>Connections indexer (session/modules/connections/ConnectionsIndexer.cpp)\<close>

subsection \<open>Values: errors, JSON, file paths\<close>

text \<open>
  \<open>core::Error\<close> converts to \<open>true\<close> exactly when it carries an error; \<open>Success()\<close>
  is the value that converts to \<open>false\<close>. A \<open>FilePath\<close> is used here only as a name that
  is handed to the file reader.
\<close>

datatype Error = Success | Failure string

definition isError :: "Error \<Rightarrow> bool" where
  "isError e = (e \<noteq> Success)"

type_synonym FilePath = string

text \<open>
  \<open>json::Object\<close> is a \<open>std::map\<close> from strings to values: a finite map, whose
  iteration order is fixed by the keys. Only strings and objects are built in this file.
\<close>

datatype json = JString string | JObject "(string, json) fmap"

subsection \<open>The host environment\<close>

text \<open>
  Everything the indexer asks of its surroundings, taken as given: the file reader
  (\<open>core::readStringFromFile\<close> with POSIX line endings: the error and the contents it
  stored), the DCF parser (\<open>text::parseDcfFile\<close>: the error and the fields it stored, for
  the text and the \<open>preserveKeyCase\<close> flag), the search path reported by R, the active
  project (\<open>buildTargetPath\<close>, \<open>packageInfo().name()\<close>), \<open>FilePath::childPath\<close>,
  \<open>FilePath::exists\<close> and \<open>module_context::disablePackages\<close>.
\<close>

record env =
  readStringFromFile :: "FilePath \<Rightarrow> Error \<times> string"
  parseDcfFile :: "string \<Rightarrow> bool \<Rightarrow> Error \<times> (string, string) fmap"
  search :: "Error \<times> string list"
  buildTargetPath :: FilePath
  packageInfo_name :: string
  childPath :: "FilePath \<Rightarrow> string \<Rightarrow> FilePath"
  exists_path :: "FilePath \<Rightarrow> bool"
  disablePackages :: bool

definition isDevtoolsLoadAllActive :: "env \<Rightarrow> bool" where
  "isDevtoolsLoadAllActive E =
     (case search E of (error, found) \<Rightarrow>
        if isError error then False else ''devtools_shims'' \<in> set found)"

subsection \<open>ConnectionsIndexEntry\<close>

record ConnectionsIndexEntry =
  entry_name :: string
  entry_package :: string

text \<open>The default constructor leaves both strings empty.\<close>

definition default_entry :: ConnectionsIndexEntry where
  "default_entry = \<lparr>entry_name = [], entry_package = []\<rparr>"

definition entry_toJson :: "ConnectionsIndexEntry \<Rightarrow> json" where
  "entry_toJson e =
     JObject (fmupd ''package'' (JString (entry_package e))
             (fmupd ''name'' (JString (entry_name e)) fmempty))"

subsection \<open>ConnectionsRegistry\<close>

text \<open>
  The registry owns one \<open>std::map<std::string, ConnectionsIndexEntry>\<close>. \<open>operator[]\<close>
  on a \<open>std::map\<close> inserts a default-constructed value under a key that is absent.
\<close>

record ConnectionsRegistry =
  connections :: "(string, ConnectionsIndexEntry) fmap"

definition empty_registry :: ConnectionsRegistry where
  "empty_registry = \<lparr>connections = fmempty\<rparr>"

definition constructKey :: "string \<Rightarrow> string \<Rightarrow> string" where
  "constructKey package name = package @ ''::'' @ name"

definition add_entry :: "string \<Rightarrow> ConnectionsIndexEntry \<Rightarrow> ConnectionsRegistry \<Rightarrow> ConnectionsRegistry" where
  "add_entry package spec r =
     r\<lparr>connections := fmupd (constructKey package (entry_name spec)) spec (connections r)\<rparr>"

text \<open>\<open>fields["Name"]\<close> on the caller's map: the stored value, or the empty string.\<close>

definition add_fields :: "string \<Rightarrow> (string, string) fmap \<Rightarrow> ConnectionsRegistry \<Rightarrow> ConnectionsRegistry" where
  "add_fields pkgName flds r =
     add_entry pkgName
       \<lparr>entry_name = (case fmlookup flds ''Name'' of None \<Rightarrow> [] | Some v \<Rightarrow> v),
        entry_package = pkgName\<rparr> r"

definition contains :: "ConnectionsRegistry \<Rightarrow> string \<Rightarrow> string \<Rightarrow> bool" where
  "contains r package name = (constructKey package name |\<in>| fmdom (connections r))"

text \<open>
  \<open>parseConnectionsDcf\<close> logs the parser's error, if any, and returns the fields in
  either case. The second component is what was passed to \<open>LOG_ERROR\<close>.
\<close>

definition parseConnectionsDcf :: "env \<Rightarrow> string \<Rightarrow> (string, string) fmap \<times> Error list" where
  "parseConnectionsDcf E contents =
     (case parseDcfFile E contents True of (error, flds) \<Rightarrow>
        (flds, if isError error then [error] else []))"

text \<open>
  \<open>boost::sregex_token_iterator\<close> with submatch \<open>-1\<close> over the separator \<open>\n{2,}\<close>:
  every match of the separator (a maximal run of two or more newlines) yields the text
  before it since the previous match, empty or not; what is left after the last match is
  yielded only when it is not empty. \<open>acc\<close> is the text read since the previous match.
\<close>

definition is_newline :: "char \<Rightarrow> bool" where
  "is_newline c = (c = CHR 0x0A)"

function split_separator :: "string \<Rightarrow> string \<Rightarrow> string list" where
  "split_separator acc [] = (if acc = [] then [] else [acc])"
| "split_separator acc (c # cs) =
     (if is_newline c \<and> (case cs of [] \<Rightarrow> False | d # ds \<Rightarrow> is_newline d)
      then acc # split_separator [] (dropWhile is_newline cs)
      else split_separator (acc @ [c]) cs)"
  by pat_completeness auto
termination
  by (relation "measure (\<lambda>(acc, cs). length cs)")
     (auto intro: le_imp_less_Suc length_dropWhile_le)

text \<open>The loop over the tokens: parse the block, add its fields, whatever the parser said.\<close>

fun add_blocks :: "env \<Rightarrow> string \<Rightarrow> string list \<Rightarrow> ConnectionsRegistry \<times> Error list
    \<Rightarrow> ConnectionsRegistry \<times> Error list" where
  "add_blocks E pkgName [] rl = rl"
| "add_blocks E pkgName (b # bs) rl =
     (case parseConnectionsDcf E b of (flds, logged) \<Rightarrow>
        add_blocks E pkgName bs (add_fields pkgName flds (fst rl), snd rl @ logged))"

text \<open>\<open>add(pkgName, connectionExtensionPath)\<close>: the registry afterwards and the errors logged.\<close>

definition add_path :: "env \<Rightarrow> string \<Rightarrow> FilePath \<Rightarrow> ConnectionsRegistry
    \<Rightarrow> ConnectionsRegistry \<times> Error list" where
  "add_path E pkgName connectionExtensionPath r =
     (case readStringFromFile E connectionExtensionPath of (error, contents) \<Rightarrow>
        if isError error then (r, [error])
        else add_blocks E pkgName (split_separator [] contents) (r, []))"

text \<open>\<open>get\<close> returns the entry and leaves the registry as \<open>operator[]\<close> left it.\<close>

definition get :: "ConnectionsRegistry \<Rightarrow> string \<Rightarrow> string \<Rightarrow> ConnectionsIndexEntry \<times> ConnectionsRegistry" where
  "get r package name =
     (case fmlookup (connections r) (constructKey package name) of
        Some e \<Rightarrow> (e, r)
      | None \<Rightarrow> (default_entry,
                 r\<lparr>connections := fmupd (constructKey package name) default_entry (connections r)\<rparr>))"

text \<open>The loop over the keys stores, under each key, the serialised entry found there.\<close>

definition toJson :: "ConnectionsRegistry \<Rightarrow> json" where
  "toJson r = JObject (fmmap entry_toJson (connections r))"

definition size_registry :: "ConnectionsRegistry \<Rightarrow> nat" where
  "size_registry r = fcard (fmdom (connections r))"

subsection \<open>Process state\<close>

text \<open>
  Registries are shared through \<open>boost::shared_ptr\<close>, and the current registry and the
  indexer's registry can be one object; so registries live in a store, a pointer is an
  index into it, and \<open>boost::make_shared\<close> appends a new object. A null pointer is
  \<open>None\<close>. A continuation (\<open>json::JsonRpcFunctionContinuation\<close>) is a callback of the
  host, named by a number; the empty function object is \<open>None\<close>. What the callbacks, the
  scheduler and \<open>LOG_ERROR\<close> were given is kept in \<open>responses\<close>, \<open>scheduled\<close> and
  \<open>errorLog\<close>, oldest first.
\<close>

datatype work = IndexLibraryPaths

record ScheduledWork =
  period_seconds :: nat
  execute :: work
  idleOnly :: bool

record JsonRpcCall =
  callee :: nat
  call_error :: Error
  call_result :: json

record session =
  heap :: "ConnectionsRegistry list"
  s_pCurrentConnectionsRegistry :: nat
  pRegistry :: "nat option"
  continuations :: "nat list"
  running_flag :: bool
  responses :: "JsonRpcCall list"
  scheduled :: "ScheduledWork list"
  errorLog :: "Error list"

text \<open>
  The state at load time: the current registry is a new empty one, the indexer's pointer
  is null, nothing is queued.
\<close>

definition initial_session :: session where
  "initial_session =
     \<lparr>heap = [empty_registry], s_pCurrentConnectionsRegistry = 0, pRegistry = None,
      continuations = [], running_flag = False, responses = [], scheduled = [],
      errorLog = []\<rparr>"

definition registry_at :: "session \<Rightarrow> nat \<Rightarrow> ConnectionsRegistry option" where
  "registry_at s a = (if a < length (heap s) then Some (heap s ! a) else None)"

definition connectionsRegistry :: "session \<Rightarrow> ConnectionsRegistry option" where
  "connectionsRegistry s = registry_at s (s_pCurrentConnectionsRegistry s)"

definition updateConnectionsRegistry :: "nat \<Rightarrow> session \<Rightarrow> session" where
  "updateConnectionsRegistry p s = s\<lparr>s_pCurrentConnectionsRegistry := p\<rparr>"

definition connectionsRegistryAsJson :: "session \<Rightarrow> json option" where
  "connectionsRegistryAsJson s = map_option toJson (connectionsRegistry s)"

subsection \<open>ConnectionsIndexer\<close>

definition onIndexingStarted :: "session \<Rightarrow> session" where
  "onIndexingStarted s =
     s\<lparr>heap := heap s @ [empty_registry], pRegistry := Some (length (heap s))\<rparr>"

text \<open>
  \<open>pRegistry_->add(pkgName, path)\<close> on the object at \<open>a\<close>: the object is replaced by
  what \<open>add\<close> leaves, and what \<open>add\<close> logged is appended to the log.
\<close>

definition add_at :: "env \<Rightarrow> string \<Rightarrow> FilePath \<Rightarrow> nat \<Rightarrow> session \<Rightarrow> session" where
  "add_at E pkgName path a s =
     (case add_path E pkgName path (heap s ! a) of (r, logged) \<Rightarrow>
        s\<lparr>heap := (heap s)[a := r], errorLog := errorLog s @ logged\<rparr>)"

text \<open>
  A step that dereferences the indexer's pointer while it is null, or points outside the
  store, has no result: \<open>None\<close>.
\<close>

definition onWork :: "env \<Rightarrow> string \<Rightarrow> FilePath \<Rightarrow> session \<Rightarrow> session option" where
  "onWork E pkgName connectionExtensionPath s =
     (case pRegistry s of
        None \<Rightarrow> None
      | Some a \<Rightarrow>
          if a < length (heap s) then Some (add_at E pkgName connectionExtensionPath a s)
          else None)"

text \<open>
  \<open>continuation(Success(), &response)\<close>, with the registry's JSON as the result of the
  response.
\<close>

definition invoke :: "json \<Rightarrow> session \<Rightarrow> nat \<Rightarrow> session" where
  "invoke registryJson s continuation =
     s\<lparr>responses := responses s @
        [\<lparr>callee = continuation, call_error = Success, call_result = registryJson\<rparr>]\<rparr>"

text \<open>
  The three steps of \<open>onIndexingCompleted\<close>: index the package under development, make
  the indexer's registry the current one, call the queued continuations in order.
\<close>

definition onIndexingCompleted :: "env \<Rightarrow> session \<Rightarrow> session option" where
  "onIndexingCompleted E s =
     (case pRegistry s of
        None \<Rightarrow> None
      | Some a \<Rightarrow>
          if a < length (heap s) then
            let s1 = (if isDevtoolsLoadAllActive E then
                        let pkgPath = buildTargetPath E;
                            extensionPath = childPath E pkgPath ''inst/rstudio/connections.dcf''
                        in if exists_path E extensionPath
                           then add_at E (packageInfo_name E) extensionPath a s
                           else s
                      else s);
                s2 = updateConnectionsRegistry a s1;
                registryJson = toJson (heap s2 ! s_pCurrentConnectionsRegistry s2)
            in Some (foldl (invoke registryJson) s2 (continuations s2))
          else None)"

definition addContinuation :: "nat \<Rightarrow> session \<Rightarrow> session" where
  "addContinuation continuation s = s\<lparr>continuations := continuations s @ [continuation]\<rparr>"

subsection \<open>The scan driver\<close>

text \<open>
  The base class \<open>ppe::Indexer\<close> (session/SessionPackageProvidedExtension) is not among
  the sources; what the indexer and the triggers use of it follows sections 4.3 and 6 of
  the specification.
\<close>

text \<open>
  Modelled from the spec: \<open>ppe::Indexer::running()\<close>, which is missing, reports whether a
  pass is under way.
\<close>

definition running :: "session \<Rightarrow> bool" where
  "running s = running_flag s"

text \<open>
  Modelled from the spec: \<open>ppe::Indexer::start()\<close>, which is missing, begins a walk; the
  indexer is Running and \<open>onIndexingStarted()\<close> is called on entry to that state.
\<close>

definition start :: "session \<Rightarrow> session" where
  "start s = onIndexingStarted (s\<lparr>running_flag := True\<rparr>)"

text \<open>
  Modelled from the spec: the walk of the driver, which is missing, calls \<open>onWork\<close> once
  for each descriptor file found, one call after the other.
\<close>

fun walk :: "env \<Rightarrow> (string \<times> FilePath) list \<Rightarrow> session \<Rightarrow> session option" where
  "walk E [] s = Some s"
| "walk E ((pkgName, path) # found) s =
     (case onWork E pkgName path s of None \<Rightarrow> None | Some s' \<Rightarrow> walk E found s')"

text \<open>
  Modelled from the spec: the end of the walk in the driver, which is missing, calls
  \<open>onIndexingCompleted()\<close> once, and the indexer is Idle again.
\<close>

definition finish :: "env \<Rightarrow> session \<Rightarrow> session option" where
  "finish E s = map_option (\<lambda>s'. s'\<lparr>running_flag := False\<rparr>) (onIndexingCompleted E s)"

subsection \<open>Triggers\<close>

definition indexLibraryPathsWithContinuation :: "nat option \<Rightarrow> session \<Rightarrow> session" where
  "indexLibraryPathsWithContinuation continuation s =
     (let s1 = (case continuation of None \<Rightarrow> s | Some k \<Rightarrow> addContinuation k s)
      in if \<not> running s1 then start s1 else s1)"

definition indexLibraryPaths :: "session \<Rightarrow> session" where
  "indexLibraryPaths s = indexLibraryPathsWithContinuation None s"

definition onDeferredInit :: "bool \<Rightarrow> session \<Rightarrow> session" where
  "onDeferredInit b s = indexLibraryPaths s"

definition commands :: "string list" where
  "commands = [''install.packages'', ''remove.packages'', ''devtools::install_github'',
               ''install_github'', ''devtools::load_all'', ''load_all'']"

text \<open>
  \<open>boost::algorithm::trim_copy\<close> removes, at both ends, the characters that are spaces
  in the classic locale; \<open>boost::algorithm::starts_with input test\<close> holds when \<open>test\<close>
  is a prefix of \<open>input\<close>.
\<close>

definition is_space :: "char \<Rightarrow> bool" where
  "is_space c = (c = CHR 0x20 \<or> c = CHR 0x09 \<or> c = CHR 0x0A \<or> c = CHR 0x0B
                 \<or> c = CHR 0x0C \<or> c = CHR 0x0D)"

definition trim_copy :: "string \<Rightarrow> string" where
  "trim_copy input = rev (dropWhile is_space (rev (dropWhile is_space input)))"

fun starts_with :: "string \<Rightarrow> string \<Rightarrow> bool" where
  "starts_with input [] = True"
| "starts_with [] (t # ts) = False"
| "starts_with (i # is) (t # ts) = (i = t \<and> starts_with is ts)"

definition scheduleDelayedWork :: "nat \<Rightarrow> work \<Rightarrow> bool \<Rightarrow> session \<Rightarrow> session" where
  "scheduleDelayedWork seconds w idle s =
     s\<lparr>scheduled := scheduled s @ [\<lparr>period_seconds = seconds, execute = w, idleOnly = idle\<rparr>]\<rparr>"

text \<open>The loop over the commands returns at the first one that matches.\<close>

fun match_commands :: "string \<Rightarrow> string list \<Rightarrow> session \<Rightarrow> session" where
  "match_commands trimmedInput [] s = s"
| "match_commands trimmedInput (command # rest) s =
     (if starts_with trimmedInput command
      then scheduleDelayedWork 1 IndexLibraryPaths True s
      else match_commands trimmedInput rest s)"

definition onConsoleInput :: "env \<Rightarrow> string \<Rightarrow> session \<Rightarrow> session" where
  "onConsoleInput E input s =
     (if disablePackages E then s
      else match_commands (trim_copy input) commands s)"

subsection \<open>A descriptor parser and a host to run the indexer on\<close>

text \<open>
  The indexer is stated for any parser. To run it, a parser after section 4.1 of the
  specification: the text of one block is structured text of colon-delimited key:value
  lines with folded continuation lines, and the result is the field mapping, or a
  failure.
\<close>

text \<open>
  Modelled from the spec: the lines of the text that \<open>text::parseDcfFile\<close>
  (core/text/DcfParser, which is missing) reads, split at the newlines.
\<close>

fun split_lines :: "string \<Rightarrow> string \<Rightarrow> string list" where
  "split_lines acc [] = [acc]"
| "split_lines acc (c # cs) =
     (if is_newline c then acc # split_lines [] cs else split_lines (acc @ [c]) cs)"

text \<open>
  Modelled from the spec: the field mapping of \<open>text::parseDcfFile\<close>, which is missing,
  gets the field that is complete.
\<close>

definition record_field :: "(string \<times> string) option \<Rightarrow> (string, string) fmap \<Rightarrow> (string, string) fmap" where
  "record_field pending flds = (case pending of None \<Rightarrow> flds | Some (k, v) \<Rightarrow> fmupd k v flds)"

text \<open>
  Modelled from the spec: the lines of a block as \<open>text::parseDcfFile\<close>, which is missing,
  takes them. An empty line is passed over; a line that starts with a blank continues the
  value of the field before it; any other line holds a key, a colon and a value, with the
  blanks around key and value removed; a failure reports no fields.
\<close>

fun parse_lines :: "string list \<Rightarrow> (string \<times> string) option \<Rightarrow> (string, string) fmap
    \<Rightarrow> Error \<times> (string, string) fmap" where
  "parse_lines [] pending flds = (Success, record_field pending flds)"
| "parse_lines (l # ls) pending flds =
     (case l of
        [] \<Rightarrow> parse_lines ls pending flds
      | c # cs \<Rightarrow>
          if c = CHR 0x20 \<or> c = CHR 0x09 then
            (case pending of
               None \<Rightarrow> (Failure ''continuation without a field'', fmempty)
             | Some (k, v) \<Rightarrow> parse_lines ls (Some (k, v @ [CHR 0x0A] @ trim_copy l)) flds)
          else if CHR '':'' \<in> set l then
            parse_lines ls
              (Some (trim_copy (takeWhile (\<lambda>x. x \<noteq> CHR '':'') l),
                     trim_copy (tl (dropWhile (\<lambda>x. x \<noteq> CHR '':'') l))))
              (record_field pending flds)
          else (Failure ''invalid line'', fmempty))"

text \<open>
  Modelled from the spec: \<open>text::parseDcfFile\<close> (core/text/DcfParser), which is missing:
  the error and the fields for the text of one block. Keys are kept as written.
\<close>

definition parseDcfFile_spec :: "string \<Rightarrow> bool \<Rightarrow> Error \<times> (string, string) fmap" where
  "parseDcfFile_spec contents preserveKeyCase = parse_lines (split_lines [] contents) None fmempty"

text \<open>
  A host with five descriptor files in its library: \<open>lib/odbc\<close> declares two
  connections; \<open>lib/spaced\<close> declares the same two, with three blank lines between the
  blocks; \<open>lib/twice\<close> declares one name in two blocks that three blank lines separate;
  \<open>lib/leading\<close> starts with a blank line and ends with one;
  \<open>lib/bad\<close> holds a block that is not a descriptor and a block that is one. The
  descriptor of the project apart, no other file can be read.
  The active project is the package \<open>mypkg\<close> at \<open>proj\<close>, loaded with devtools.
\<close>

definition demo_files :: "FilePath \<Rightarrow> Error \<times> string" where
  "demo_files path =
     (if path = ''lib/odbc'' then (Success, ''Name: pg\<newline>\<newline>Name: sqlite\<newline>'')
      else if path = ''lib/twice'' then (Success, ''Name: pg\<newline>\<newline>\<newline>\<newline>Name: pg'')
      else if path = ''lib/spaced'' then (Success, ''Name: pg\<newline>\<newline>\<newline>\<newline>Name: sqlite'')
      else if path = ''lib/leading'' then (Success, ''\<newline>\<newline>Name: pg\<newline>\<newline>'')
      else if path = ''lib/bad'' then (Success, ''no descriptor here\<newline>\<newline>Name: ok'')
      else if path = ''proj/inst/rstudio/connections.dcf'' then (Success, ''Name: dev'')
      else (Failure ''no such file'', []))"

definition demo_env :: env where
  "demo_env =
     \<lparr>readStringFromFile = demo_files,
      parseDcfFile = parseDcfFile_spec,
      search = (Success, [''.GlobalEnv'', ''devtools_shims'', ''package:base'']),
      buildTargetPath = ''proj'',
      packageInfo_name = ''mypkg'',
      childPath = (\<lambda>p c. p @ ''/'' @ c),
      exists_path = (\<lambda>p. \<not> isError (fst (demo_files p))),
      disablePackages = False\<rparr>"

text \<open>
  Two passes on that host. A first request with a continuation starts the first pass,
  and a second request with another continuation arrives while it runs; the pass walks
  over \<open>lib/odbc\<close> and completes. Then a request without continuation starts the second
  pass, which walks over \<open>lib/bad\<close> and completes.
\<close>

definition demo_two_passes :: "session option" where
  "demo_two_passes =
     Option.bind (walk demo_env [(''odbc'', ''lib/odbc'')]
        (indexLibraryPathsWithContinuation (Some 8)
          (indexLibraryPathsWithContinuation (Some 7) initial_session)))
       (\<lambda>s1. Option.bind (finish demo_env s1)
          (\<lambda>s2. Option.bind (walk demo_env [(''x'', ''lib/bad'')] (indexLibraryPaths s2))
             (finish demo_env)))"

subsection \<open>Notions used to state the properties\<close>

text \<open>A sequence of \<open>add(package, entry)\<close> calls, the key each call uses, the keys stored.\<close>

definition call_key :: "string \<times> ConnectionsIndexEntry \<Rightarrow> string" where
  "call_key c = constructKey (fst c) (entry_name (snd c))"

definition add_calls :: "(string \<times> ConnectionsIndexEntry) list \<Rightarrow> ConnectionsRegistry \<Rightarrow> ConnectionsRegistry" where
  "add_calls calls r = foldl (\<lambda>r' c. add_entry (fst c) (snd c) r') r calls"

definition keys :: "ConnectionsRegistry \<Rightarrow> string set" where
  "keys r = fset (fmdom (connections r))"

text \<open>The name under which a block is entered: the \<open>Name\<close> the parser stored, or nothing.\<close>

definition block_name :: "env \<Rightarrow> string \<Rightarrow> string" where
  "block_name E b =
     (case fmlookup (snd (parseDcfFile E b True)) ''Name'' of None \<Rightarrow> [] | Some v \<Rightarrow> v)"

definition block_entry :: "env \<Rightarrow> string \<Rightarrow> string \<Rightarrow> ConnectionsIndexEntry" where
  "block_entry E pkgName b = \<lparr>entry_name = block_name E b, entry_package = pkgName\<rparr>"

text \<open>
  A text without separator inside: no two newlines in a row. A block: not empty, no
  separator inside, no newline in front. A descriptor text with its blocks and
  separators written out: each block but the last does not end in a newline and is
  followed by a run of \<open>n\<close> newlines.
\<close>

fun no_separator :: "string \<Rightarrow> bool" where
  "no_separator (c # d # cs) = (\<not> (is_newline c \<and> is_newline d) \<and> no_separator (d # cs))"
| "no_separator cs = True"

definition is_block :: "string \<Rightarrow> bool" where
  "is_block b = (b \<noteq> [] \<and> no_separator b \<and> \<not> is_newline (hd b))"

definition separated :: "string \<times> nat \<Rightarrow> bool" where
  "separated bn = (is_block (fst bn) \<and> \<not> is_newline (last (fst bn)) \<and> 2 \<le> snd bn)"

fun join_blocks :: "(string \<times> nat) list \<Rightarrow> string \<Rightarrow> string" where
  "join_blocks [] final = final"
| "join_blocks (bn # rest) final =
     fst bn @ replicate (snd bn) (CHR 0x0A) @ join_blocks rest final"

text \<open>
  What a walk over the files \<open>found\<close> leaves in a registry, and the step that
  \<open>onIndexingCompleted\<close> adds for a package loaded with devtools.
\<close>

fun indexed :: "env \<Rightarrow> (string \<times> FilePath) list \<Rightarrow> ConnectionsRegistry \<Rightarrow> ConnectionsRegistry" where
  "indexed E [] r = r"
| "indexed E ((pkgName, path) # found) r = indexed E found (fst (add_path E pkgName path r))"

definition dev_path :: "env \<Rightarrow> FilePath" where
  "dev_path E = childPath E (buildTargetPath E) ''inst/rstudio/connections.dcf''"

definition with_dev_entry :: "env \<Rightarrow> ConnectionsRegistry \<Rightarrow> ConnectionsRegistry" where
  "with_dev_entry E r =
     (if isDevtoolsLoadAllActive E \<and> exists_path E (dev_path E)
      then fst (add_path E (packageInfo_name E) (dev_path E) r) else r)"

text \<open>A member of a JSON object, and the call a continuation receives on success.\<close>

fun json_member :: "json \<Rightarrow> string \<Rightarrow> json option" where
  "json_member (JObject members) k = fmlookup members k"
| "json_member (JString v) k = None"

text \<open>Every entry is stored under the key made of its own package and name.\<close>

definition keyed :: "ConnectionsRegistry \<Rightarrow> bool" where
  "keyed r = fmpred (\<lambda>k e. k = constructKey (entry_package e) (entry_name e)) (connections r)"

definition success_call :: "json \<Rightarrow> nat \<Rightarrow> JsonRpcCall" where
  "success_call j k = \<lparr>callee = k, call_error = Success, call_result = j\<rparr>"

section \<open>Properties\<close>

subsection \<open>Registry: keys, size, lookup\<close>

lemma size_registry_keys: "size_registry r = card (keys r)"
  by (simp add: size_registry_def keys_def fcard.rep_eq)

lemma finite_keys: "finite (keys r)"
  by (simp add: keys_def)

lemma contains_keys: "contains r p n = (constructKey p n \<in> keys r)"
  by (simp add: contains_def keys_def)

lemma keys_empty: "keys empty_registry = {}"
  by (simp add: keys_def empty_registry_def)

lemma keys_add_entry: "keys (add_entry p e r) = insert (constructKey p (entry_name e)) (keys r)"
  by (simp add: keys_def add_entry_def)

lemma lookup_add_entry:
  "fmlookup (connections (add_entry p e r)) k =
     (if k = constructKey p (entry_name e) then Some e else fmlookup (connections r) k)"
  by (auto simp add: add_entry_def)

lemma keys_add_calls: "keys (add_calls calls r) = keys r \<union> call_key ` set calls"
  unfolding add_calls_def
  by (induction calls arbitrary: r) (auto simp add: keys_add_entry call_key_def)

lemma add_calls_snoc: "add_calls (calls @ [c]) r = add_entry (fst c) (snd c) (add_calls calls r)"
  by (simp add: add_calls_def)

lemma lookup_add_calls:
  "fmlookup (connections (add_calls calls r)) k =
     (case find (\<lambda>c. call_key c = k) (rev calls) of
        None \<Rightarrow> fmlookup (connections r) k
      | Some c \<Rightarrow> Some (snd c))"
proof (induction calls arbitrary: r rule: rev_induct)
  case Nil
  show ?case by (simp add: add_calls_def)
next
  case (snoc c calls)
  then show ?case
    by (auto simp add: add_calls_snoc lookup_add_entry call_key_def)
qed

text \<open>
  C8. For every sequence of \<open>add(package, entry)\<close> calls on a registry, \<open>size()\<close> is the
  number of distinct \<open>package::name\<close> keys (those the registry held and those the calls
  used; on a new registry, those the calls used). One more \<open>add\<close> under a key already
  used leaves \<open>size()\<close> as it was, and the entry found under a key is the one of the last
  call that used it.
\<close>

theorem size_counts_distinct_keys:
  "size_registry (add_calls calls empty_registry) = card (call_key ` set calls)
   \<and> size_registry (add_calls calls r) = card (keys r \<union> call_key ` set calls)
   \<and> size_registry (add_entry p e r) =
       (if contains r p (entry_name e) then size_registry r else Suc (size_registry r))
   \<and> fmlookup (connections (add_calls calls r)) k =
       (case find (\<lambda>c. call_key c = k) (rev calls) of
          None \<Rightarrow> fmlookup (connections r) k
        | Some c \<Rightarrow> Some (snd c))"
  by (simp add: size_registry_keys keys_add_calls keys_empty contains_keys keys_add_entry
      finite_keys card_insert_if lookup_add_calls insert_absorb)

theorem size_counts_distinct_keys_witness:
  "size_registry (add_calls
      [(''odbc'', \<lparr>entry_name = ''pg'', entry_package = ''odbc''\<rparr>),
       (''odbc'', \<lparr>entry_name = ''sqlite'', entry_package = ''odbc''\<rparr>),
       (''odbc'', \<lparr>entry_name = ''pg'', entry_package = ''other''\<rparr>)] empty_registry) = 2
   \<and> fmlookup (connections (add_calls
      [(''odbc'', \<lparr>entry_name = ''pg'', entry_package = ''odbc''\<rparr>),
       (''odbc'', \<lparr>entry_name = ''sqlite'', entry_package = ''odbc''\<rparr>),
       (''odbc'', \<lparr>entry_name = ''pg'', entry_package = ''other''\<rparr>)] empty_registry))
      ''odbc::pg'' = Some \<lparr>entry_name = ''pg'', entry_package = ''other''\<rparr>"
  using size_counts_distinct_keys
    [of "[(''odbc'', \<lparr>entry_name = ''pg'', entry_package = ''odbc''\<rparr>),
          (''odbc'', \<lparr>entry_name = ''sqlite'', entry_package = ''odbc''\<rparr>),
          (''odbc'', \<lparr>entry_name = ''pg'', entry_package = ''other''\<rparr>)]"
        empty_registry "''odbc''" "\<lparr>entry_name = ''pg'', entry_package = ''odbc''\<rparr>"
        "''odbc::pg''"]
  by (simp add: call_key_def constructKey_def card_insert_if)

text \<open>
  C10. For a registry and a key \<open>(package, name)\<close> that it does not contain, \<open>get\<close>
  changes the registry: it inserts a default entry under that key. Afterwards \<open>contains\<close>
  holds for the key, \<open>size()\<close> is one more, and the entry returned has an empty name and
  an empty package.
\<close>

theorem get_missing_inserts_default:
  assumes "\<not> contains r package name"
  shows "snd (get r package name) \<noteq> r
     \<and> contains (snd (get r package name)) package name
     \<and> size_registry (snd (get r package name)) = Suc (size_registry r)
     \<and> entry_name (fst (get r package name)) = []
     \<and> entry_package (fst (get r package name)) = []
     \<and> fmlookup (connections (snd (get r package name))) (constructKey package name)
         = Some default_entry"
proof -
  from assms have none: "fmlookup (connections r) (constructKey package name) = None"
    by (simp add: contains_def fmdom_notD)
  have after: "contains (snd (get r package name)) package name"
    by (simp add: get_def none contains_def)
  have "size_registry (snd (get r package name)) = Suc (size_registry r)"
    using assms
    by (simp add: get_def none size_registry_keys contains_keys keys_def card_insert_if)
  moreover have "snd (get r package name) \<noteq> r"
    using after assms by auto
  moreover have "fst (get r package name) = default_entry"
    by (simp add: get_def none)
  moreover have "fmlookup (connections (snd (get r package name))) (constructKey package name)
         = Some default_entry"
    by (simp add: get_def none)
  ultimately show ?thesis
    using after by (simp add: default_entry_def)
qed

theorem get_missing_inserts_default_witness:
  "\<not> contains empty_registry ''odbc'' ''pg''
   \<and> contains (snd (get empty_registry ''odbc'' ''pg'')) ''odbc'' ''pg''
   \<and> size_registry (snd (get empty_registry ''odbc'' ''pg'')) = 1
   \<and> fst (get empty_registry ''odbc'' ''pg'') = \<lparr>entry_name = [], entry_package = []\<rparr>"
proof -
  have h: "\<not> contains empty_registry ''odbc'' ''pg''"
    by (simp add: contains_def empty_registry_def)
  have "size_registry empty_registry = 0"
    by (simp add: size_registry_def empty_registry_def)
  then show ?thesis
    using h get_missing_inserts_default [OF h] by simp
qed

subsection \<open>Splitting into blocks and adding them\<close>

lemma split_no_separator:
  "no_separator b \<Longrightarrow> split_separator acc b = (if acc @ b = [] then [] else [acc @ b])"
proof (induction b arbitrary: acc)
  case Nil
  show ?case by simp
next
  case (Cons c cs)
  have "no_separator cs" using Cons.prems by (cases cs) auto
  moreover have "\<not> (is_newline c \<and> (case cs of [] \<Rightarrow> False | d # ds \<Rightarrow> is_newline d))"
    using Cons.prems by (cases cs) auto
  ultimately show ?case using Cons.IH[of "acc @ [c]"] by simp
qed

lemma split_through_block:
  "no_separator b \<Longrightarrow> b = [] \<or> \<not> is_newline (last b) \<Longrightarrow>
   split_separator acc (b @ rest) = split_separator (acc @ b) rest"
proof (induction b arbitrary: acc)
  case Nil
  show ?case by simp
next
  case (Cons c cs)
  have ns: "no_separator cs" using Cons.prems by (cases cs) auto
  have lst: "cs = [] \<or> \<not> is_newline (last cs)" using Cons.prems by auto
  have "\<not> (is_newline c \<and> (case cs @ rest of [] \<Rightarrow> False | d # ds \<Rightarrow> is_newline d))"
    using Cons.prems by (cases cs) auto
  then have "split_separator acc ((c # cs) @ rest) = split_separator (acc @ [c]) (cs @ rest)"
    by auto
  also have "\<dots> = split_separator ((acc @ [c]) @ cs) rest"
    using Cons.IH[OF ns lst] .
  finally show ?case by simp
qed

lemma split_at_run:
  assumes "2 \<le> n" and "rest = [] \<or> \<not> is_newline (hd rest)"
  shows "split_separator acc (replicate n (CHR 0x0A) @ rest) = acc # split_separator [] rest"
proof -
  obtain m where n: "n = Suc (Suc m)"
    using assms(1) by (metis Suc_le_D numeral_2_eq_2 Suc_le_mono)
  have dw: "dropWhile is_newline (replicate (Suc m) (CHR 0x0A) @ rest) = rest"
    using assms(2) by (cases rest) (auto simp add: is_newline_def dropWhile_append)
  show ?thesis
    unfolding n using dw by (simp add: is_newline_def)
qed

lemma join_blocks_hd:
  "list_all separated bs \<Longrightarrow> is_block final \<Longrightarrow>
   join_blocks bs final \<noteq> [] \<and> \<not> is_newline (hd (join_blocks bs final))"
  by (cases bs) (auto simp add: separated_def is_block_def)

lemma split_join_blocks:
  "list_all separated bs \<Longrightarrow> is_block final \<Longrightarrow>
   split_separator [] (join_blocks bs final) = map fst bs @ [final]"
proof (induction bs)
  case Nil
  then show ?case
    using split_no_separator[of final "[]"] by (simp add: is_block_def)
next
  case (Cons bn bs)
  obtain b n where bn: "bn = (b, n)" by (cases bn)
  have first: "separated (b, n)" and bs: "list_all separated bs"
    using Cons.prems(1) by (simp_all add: bn)
  have b: "is_block b" "\<not> is_newline (last b)" "2 \<le> n"
    using first by (simp_all add: separated_def)
  have "split_separator [] (join_blocks (bn # bs) final)
        = split_separator b (replicate n (CHR 0x0A) @ join_blocks bs final)"
    using split_through_block[of b "[]"] b by (simp add: bn is_block_def)
  also have "\<dots> = b # split_separator [] (join_blocks bs final)"
    using split_at_run[OF b(3)] join_blocks_hd[OF bs Cons.prems(2)] by simp
  also have "\<dots> = map fst (bn # bs) @ [final]"
    using Cons.IH[OF bs Cons.prems(2)] by (simp add: bn)
  finally show ?case .
qed

lemma first_run_exists:
  "no_separator c \<or>
   (\<exists>b n rest. c = b @ replicate n (CHR 0x0A) @ rest \<and> no_separator b
      \<and> (b = [] \<or> \<not> is_newline (last b)) \<and> 2 \<le> n
      \<and> (rest = [] \<or> \<not> is_newline (hd rest)))"
proof (induction c)
  case Nil
  show ?case by simp
next
  case (Cons x xs)
  from Cons.IH show ?case
  proof
    assume ns: "no_separator xs"
    show ?thesis
    proof (cases "is_newline x \<and> xs \<noteq> [] \<and> is_newline (hd xs)")
      case False
      then have "no_separator (x # xs)" using ns by (cases xs) auto
      then show ?thesis ..
    next
      case True
      then obtain ys where xs: "xs = CHR 0x0A # ys" and x: "x = CHR 0x0A"
        by (cases xs) (auto simp add: is_newline_def)
      have "ys = [] \<or> \<not> is_newline (hd ys)"
        using ns xs by (cases ys) (auto simp add: is_newline_def)
      moreover have "x # xs = [] @ replicate 2 (CHR 0x0A) @ ys"
        by (simp add: x xs numeral_2_eq_2)
      ultimately have "x # xs = [] @ replicate 2 (CHR 0x0A) @ ys \<and> no_separator []
          \<and> ([] = [] \<or> \<not> is_newline (last [])) \<and> (2::nat) \<le> 2
          \<and> (ys = [] \<or> \<not> is_newline (hd ys))"
        by simp
      then show ?thesis by blast
    qed
  next
    assume "\<exists>b n rest. xs = b @ replicate n (CHR 0x0A) @ rest \<and> no_separator b
      \<and> (b = [] \<or> \<not> is_newline (last b)) \<and> 2 \<le> n
      \<and> (rest = [] \<or> \<not> is_newline (hd rest))"
    then obtain b n rest where xs: "xs = b @ replicate n (CHR 0x0A) @ rest"
      and nb: "no_separator b" and lb: "b = [] \<or> \<not> is_newline (last b)" and n: "2 \<le> n"
      and r: "rest = [] \<or> \<not> is_newline (hd rest)"
      by blast
    show ?thesis
    proof (cases "is_newline x \<and> (b = [] \<or> is_newline (hd b))")
      case False
      then have "no_separator (x # b)" using nb by (cases b) auto
      moreover have "x # b = [] \<or> \<not> is_newline (last (x # b))"
        using False lb by (cases b) auto
      moreover have "x # xs = (x # b) @ replicate n (CHR 0x0A) @ rest"
        by (simp add: xs)
      ultimately show ?thesis using n r by blast
    next
      case True
      then have x: "x = CHR 0x0A" by (simp add: is_newline_def)
      show ?thesis
      proof (cases b)
        case Nil
        have "x # xs = [] @ replicate (Suc n) (CHR 0x0A) @ rest"
          by (simp add: xs x Nil)
        moreover have "2 \<le> Suc n" using n by simp
        ultimately have "x # xs = [] @ replicate (Suc n) (CHR 0x0A) @ rest \<and> no_separator []
          \<and> ([] = [] \<or> \<not> is_newline (last [])) \<and> 2 \<le> Suc n
          \<and> (rest = [] \<or> \<not> is_newline (hd rest))"
          using r by simp
        then show ?thesis by blast
      next
        case (Cons y b')
        then have y: "y = CHR 0x0A" using True by (simp add: is_newline_def)
        have b': "b' \<noteq> []" using lb Cons y by (auto simp add: is_newline_def)
        have hb': "\<not> is_newline (hd b')"
          using nb Cons y b' by (cases b') (auto simp add: is_newline_def)
        have "x # xs = [] @ replicate 2 (CHR 0x0A) @ (b' @ replicate n (CHR 0x0A) @ rest)"
          by (simp add: xs x Cons y numeral_2_eq_2)
        moreover have "b' @ replicate n (CHR 0x0A) @ rest = []
           \<or> \<not> is_newline (hd (b' @ replicate n (CHR 0x0A) @ rest))"
          using b' hb' by simp
        ultimately have "x # xs = [] @ replicate 2 (CHR 0x0A) @ (b' @ replicate n (CHR 0x0A) @ rest)
          \<and> no_separator [] \<and> ([] = [] \<or> \<not> is_newline (last [])) \<and> (2::nat) \<le> 2
          \<and> (b' @ replicate n (CHR 0x0A) @ rest = []
               \<or> \<not> is_newline (hd (b' @ replicate n (CHR 0x0A) @ rest)))"
          by simp
        then show ?thesis by blast
      qed
    qed
  qed
qed

lemma split_first_run:
  assumes "no_separator b" and "b = [] \<or> \<not> is_newline (last b)" and "2 \<le> n"
    and "rest = [] \<or> \<not> is_newline (hd rest)"
  shows "split_separator [] (b @ replicate n (CHR 0x0A) @ rest) = b # split_separator [] rest"
  using split_through_block[OF assms(1,2), of "[]"] split_at_run[OF assms(3,4)] by simp

lemma inj_constructKey: "inj (constructKey pkg)"
  by (simp add: inj_def constructKey_def)

lemma call_key_blocks:
  "call_key ` set (map (\<lambda>b. (pkg, block_entry E pkg b)) bs)
     = constructKey pkg ` block_name E ` set bs"
  by (simp add: call_key_def block_entry_def image_image)

lemma add_blocks_fst:
  "fst (add_blocks E pkg bs rl) =
     foldl (\<lambda>r b. add_entry pkg (block_entry E pkg b) r) (fst rl) bs"
  by (induction bs arbitrary: rl)
     (simp_all add: parseConnectionsDcf_def add_fields_def block_entry_def block_name_def
       split: prod.splits)

lemma add_blocks_snd:
  "snd (add_blocks E pkg bs rl) =
     snd rl @ filter isError (map (\<lambda>b. fst (parseDcfFile E b True)) bs)"
  by (induction bs arbitrary: rl)
     (simp_all add: parseConnectionsDcf_def split: prod.splits)

lemma add_blocks_calls:
  "fst (add_blocks E pkg bs rl) = add_calls (map (\<lambda>b. (pkg, block_entry E pkg b)) bs) (fst rl)"
  by (simp add: add_blocks_fst add_calls_def foldl_map)

lemma keys_add_blocks:
  "keys (fst (add_blocks E pkg bs rl)) = keys (fst rl) \<union> constructKey pkg ` block_name E ` set bs"
  by (simp add: add_blocks_calls keys_add_calls call_key_blocks del: set_map)

lemma size_add_blocks_empty:
  "size_registry (fst (add_blocks E pkg bs (empty_registry, []))) = card (block_name E ` set bs)"
  by (simp add: size_registry_keys keys_add_blocks keys_empty card_image
      inj_on_subset[OF inj_constructKey])

lemma add_path_read_error:
  "isError (fst (readStringFromFile E path)) \<Longrightarrow>
   add_path E pkg path r = (r, [fst (readStringFromFile E path)])"
  by (cases "readStringFromFile E path") (simp add: add_path_def)

lemma add_path_read:
  "\<not> isError (fst (readStringFromFile E path)) \<Longrightarrow>
   add_path E pkg path r =
     add_blocks E pkg (split_separator [] (snd (readStringFromFile E path))) (r, [])"
  by (cases "readStringFromFile E path") (simp add: add_path_def)

subsection \<open>The indexer's steps\<close>

lemma add_at_fields:
  "heap (add_at E p f a s) = (heap s)[a := fst (add_path E p f (heap s ! a))]"
  "errorLog (add_at E p f a s) = errorLog s @ snd (add_path E p f (heap s ! a))"
  "pRegistry (add_at E p f a s) = pRegistry s"
  "s_pCurrentConnectionsRegistry (add_at E p f a s) = s_pCurrentConnectionsRegistry s"
  "continuations (add_at E p f a s) = continuations s"
  "responses (add_at E p f a s) = responses s"
  "running_flag (add_at E p f a s) = running_flag s"
  "scheduled (add_at E p f a s) = scheduled s"
  by (simp_all add: add_at_def split: prod.splits)

lemma walk_effect:
  assumes "pRegistry s = Some a" and "a < length (heap s)"
  shows "\<exists>s'. walk E found s = Some s'
           \<and> heap s' = (heap s)[a := indexed E found (heap s ! a)]
           \<and> pRegistry s' = Some a
           \<and> s_pCurrentConnectionsRegistry s' = s_pCurrentConnectionsRegistry s
           \<and> continuations s' = continuations s
           \<and> responses s' = responses s
           \<and> running_flag s' = running_flag s
           \<and> scheduled s' = scheduled s"
  using assms
proof (induction found arbitrary: s)
  case Nil
  then show ?case by simp
next
  case (Cons x found)
  obtain p f where x: "x = (p, f)" by (cases x)
  let ?s1 = "add_at E p f a s"
  have step: "onWork E p f s = Some ?s1"
    using Cons.prems by (simp add: onWork_def)
  have p1: "pRegistry ?s1 = Some a" and l1: "a < length (heap ?s1)"
    using Cons.prems by (simp_all add: add_at_fields)
  from Cons.IH[OF p1 l1] obtain s' where
    w: "walk E found ?s1 = Some s'"
    and h: "heap s' = (heap ?s1)[a := indexed E found (heap ?s1 ! a)]"
    and rest: "pRegistry s' = Some a"
      "s_pCurrentConnectionsRegistry s' = s_pCurrentConnectionsRegistry ?s1"
      "continuations s' = continuations ?s1" "responses s' = responses ?s1"
      "running_flag s' = running_flag ?s1" "scheduled s' = scheduled ?s1"
    by blast
  have "heap s' = (heap s)[a := indexed E (x # found) (heap s ! a)]"
    using h Cons.prems by (simp add: add_at_fields x)
  then show ?case
    using w rest step by (simp add: x add_at_fields)
qed

lemma foldl_invoke:
  "foldl (invoke j) s ks = s\<lparr>responses := responses s @ map (success_call j) ks\<rparr>"
  by (induction ks arbitrary: s) (simp_all add: invoke_def success_call_def)

lemma completed_effect:
  assumes "pRegistry s = Some a" and "a < length (heap s)"
  shows "\<exists>s'. onIndexingCompleted E s = Some s'
           \<and> heap s' = (heap s)[a := with_dev_entry E (heap s ! a)]
           \<and> pRegistry s' = Some a
           \<and> s_pCurrentConnectionsRegistry s' = a
           \<and> continuations s' = continuations s
           \<and> responses s' = responses s @
                map (success_call (toJson (with_dev_entry E (heap s ! a)))) (continuations s)
           \<and> running_flag s' = running_flag s
           \<and> scheduled s' = scheduled s"
  using assms
  by (simp add: onIndexingCompleted_def Let_def foldl_invoke updateConnectionsRegistry_def
      with_dev_entry_def dev_path_def add_at_fields)

lemma add_blocks_single:
  "fst (add_blocks E pkgName [b] (r, logged)) = add_fields pkgName (snd (parseDcfFile E b True)) r"
  by (simp add: parseConnectionsDcf_def split: prod.splits)

lemma match_commands_scheduled:
  "match_commands t cs s =
     (if \<exists>c \<in> set cs. starts_with t c then scheduleDelayedWork 1 IndexLibraryPaths True s else s)"
  by (induction cs) auto

subsection \<open>Claims about single operations\<close>

text \<open>
  C6. A block is added with the fields the parser stored for it. For fields that hold no
  \<open>Name\<close>, \<open>add\<close> still enters exactly one entry: an entry with the empty name, under the
  key of the package and the empty name; no other key changes, so \<open>size()\<close> grows by one
  unless that key was there already.
\<close>

theorem fields_without_name:
  assumes "fmlookup flds ''Name'' = None"
  shows "add_fields pkgName flds r
           = add_entry pkgName \<lparr>entry_name = [], entry_package = pkgName\<rparr> r
     \<and> contains (add_fields pkgName flds r) pkgName []
     \<and> fmlookup (connections (add_fields pkgName flds r)) (constructKey pkgName [])
          = Some \<lparr>entry_name = [], entry_package = pkgName\<rparr>
     \<and> keys (add_fields pkgName flds r) = insert (constructKey pkgName []) (keys r)
     \<and> size_registry (add_fields pkgName flds r)
          = (if contains r pkgName [] then size_registry r else Suc (size_registry r))
     \<and> fst (add_blocks E pkgName [b] (r, logged))
          = add_fields pkgName (snd (parseDcfFile E b True)) r"
proof -
  have r': "add_fields pkgName flds r
           = add_entry pkgName \<lparr>entry_name = [], entry_package = pkgName\<rparr> r"
    using assms by (simp add: add_fields_def)
  show ?thesis
    unfolding r' add_blocks_single
    by (simp add: contains_keys keys_add_entry lookup_add_entry size_registry_keys
        card_insert_if finite_keys insert_absorb)
qed

theorem fields_without_name_witness:
  "fmlookup (snd (parseDcfFile demo_env ''Type: x'' True)) ''Name'' = None
   \<and> contains (add_fields ''odbc'' (snd (parseDcfFile demo_env ''Type: x'' True)) empty_registry)
        ''odbc'' []
   \<and> size_registry (fst (add_blocks demo_env ''odbc'' [''Type: x''] (empty_registry, []))) = 1"
proof -
  have h: "fmlookup (snd (parseDcfFile demo_env ''Type: x'' True)) ''Name'' = None"
    by (simp add: demo_env_def parseDcfFile_spec_def is_newline_def record_field_def
        trim_copy_def is_space_def)
  have "\<not> contains empty_registry ''odbc'' []"
    by (simp add: contains_def empty_registry_def)
  moreover have "size_registry empty_registry = 0"
    by (simp add: size_registry_def empty_registry_def)
  ultimately show ?thesis
    using h fields_without_name [OF h, of "''odbc''" empty_registry demo_env "''Type: x''" "[]",
        THEN conjunct2]
    by (simp del: add_blocks.simps)
qed

text \<open>
  C9. With the packages pane enabled, a line of console input schedules exactly one
  re-index, delayed by one second and for idle time only, when the trimmed line starts
  with one of the six commands, and schedules nothing otherwise; nothing else changes.
  The line \<open>install.packages("DBI")\<close> schedules one, the line \<open>x <- 1\<close> none.
\<close>

theorem console_input_schedules:
  assumes "\<not> disablePackages E"
  shows "scheduled (onConsoleInput E input s) =
           scheduled s @
             (if \<exists>command \<in> set commands. starts_with (trim_copy input) command
              then [\<lparr>period_seconds = 1, execute = IndexLibraryPaths, idleOnly = True\<rparr>]
              else [])
     \<and> onConsoleInput E input s = s\<lparr>scheduled := scheduled (onConsoleInput E input s)\<rparr>
     \<and> scheduled (onConsoleInput E ''install.packages(\"DBI\")'' s)
          = scheduled s @ [\<lparr>period_seconds = 1, execute = IndexLibraryPaths, idleOnly = True\<rparr>]
     \<and> scheduled (onConsoleInput E ''x <- 1'' s) = scheduled s"
proof -
  have a: "scheduled (onConsoleInput E line s) =
           scheduled s @
             (if \<exists>command \<in> set commands. starts_with (trim_copy line) command
              then [\<lparr>period_seconds = 1, execute = IndexLibraryPaths, idleOnly = True\<rparr>]
              else [])" for line
    using assms by (simp add: onConsoleInput_def match_commands_scheduled scheduleDelayedWork_def)
  have b: "onConsoleInput E input s = s\<lparr>scheduled := scheduled (onConsoleInput E input s)\<rparr>"
    using assms by (simp add: onConsoleInput_def match_commands_scheduled scheduleDelayedWork_def)
  have c: "\<exists>command \<in> set commands. starts_with (trim_copy ''install.packages(\"DBI\")'') command"
    by (simp add: commands_def trim_copy_def is_space_def)
  have d: "\<not> (\<exists>command \<in> set commands. starts_with (trim_copy ''x <- 1'') command)"
    by (simp add: commands_def trim_copy_def is_space_def)
  show ?thesis
    using a[of input] b a[of "''install.packages(\"DBI\")''"] a[of "''x <- 1''"] c d
    by simp
qed

theorem console_input_schedules_witness:
  "\<not> disablePackages demo_env
   \<and> scheduled (onConsoleInput demo_env ''  load_all()  '' initial_session)
       = [\<lparr>period_seconds = 1, execute = IndexLibraryPaths, idleOnly = True\<rparr>]
   \<and> scheduled (onConsoleInput demo_env ''install.packages(\"DBI\")'' initial_session)
       = [\<lparr>period_seconds = 1, execute = IndexLibraryPaths, idleOnly = True\<rparr>]
   \<and> scheduled (onConsoleInput demo_env ''x <- 1'' initial_session) = []"
proof -
  have h: "\<not> disablePackages demo_env" by (simp add: demo_env_def)
  have c: "\<exists>command \<in> set commands. starts_with (trim_copy ''  load_all()  '') command"
    by (simp add: commands_def trim_copy_def is_space_def)
  show ?thesis
    using h c console_input_schedules [OF h, of "''  load_all()  ''" initial_session]
    by (simp add: initial_session_def)
qed

subsection \<open>Claims about descriptor files\<close>

lemma demo_names:
  "block_name demo_env ''Name: pg'' = ''pg''"
  "block_name demo_env ''Name: sqlite'' = ''sqlite''"
  "block_name demo_env ''Name: sqlite\<newline>'' = ''sqlite''"
  "block_name demo_env ''no descriptor here'' = []"
  "block_name demo_env ''Name: ok'' = ''ok''"
  "block_name demo_env ''Name: dev'' = ''dev''"
  "block_name demo_env [] = []"
  by (simp_all add: block_name_def demo_env_def parseDcfFile_spec_def is_newline_def
      record_field_def trim_copy_def is_space_def)

text \<open>
  C5 (as amended). \<open>add(pkg, filePath)\<close> splits the contents at every run of two or more
  newlines, whatever the contents: a text that is empty has no block; a text without a
  run is one block; otherwise the text before the first run is a block, empty if the text
  starts with the run, and the blocks that follow are those of the text after the run, so
  that a run at the end is followed by no block. \<open>add(pkg, fields)\<close> is called once for
  each block, in order, and the entries left in a new registry are as many as the blocks
  have different names, since blocks of the same name share a key. For two blocks that
  three blank lines separate there are two calls, and two entries when the names of the
  blocks differ, one when they are equal.
\<close>

theorem add_path_blocks_of_contents:
  assumes "readStringFromFile E path = (Success, contents)"
  shows "(str = [] \<and> split_separator [] str = []
          \<or> str \<noteq> [] \<and> no_separator str \<and> split_separator [] str = [str]
          \<or> (\<exists>b n rest. str = b @ replicate n (CHR 0x0A) @ rest \<and> no_separator b
                \<and> (b = [] \<or> \<not> is_newline (last b)) \<and> 2 \<le> n
                \<and> (rest = [] \<or> \<not> is_newline (hd rest))
                \<and> split_separator [] str = b # split_separator [] rest))
     \<and> fst (add_path E pkg path r)
           = add_calls (map (\<lambda>b. (pkg, block_entry E pkg b)) (split_separator [] contents)) r
     \<and> size_registry (fst (add_path E pkg path empty_registry))
           = card (block_name E ` set (split_separator [] contents))
     \<and> (contents = join_blocks bs final \<and> list_all separated bs \<and> is_block final \<longrightarrow>
          split_separator [] contents = map fst bs @ [final])
     \<and> (contents = b1 @ replicate 4 (CHR 0x0A) @ b2 \<and> separated (b1, 4) \<and> is_block b2 \<longrightarrow>
          split_separator [] contents = [b1, b2]
          \<and> fst (add_path E pkg path r)
               = add_fields pkg (snd (parseDcfFile E b2 True))
                   (add_fields pkg (snd (parseDcfFile E b1 True)) r)
          \<and> size_registry (fst (add_path E pkg path empty_registry))
               = (if block_name E b1 = block_name E b2 then 1 else 2))"
proof -
  have cases: "str = [] \<and> split_separator [] str = []
          \<or> str \<noteq> [] \<and> no_separator str \<and> split_separator [] str = [str]
          \<or> (\<exists>b n rest. str = b @ replicate n (CHR 0x0A) @ rest \<and> no_separator b
                \<and> (b = [] \<or> \<not> is_newline (last b)) \<and> 2 \<le> n
                \<and> (rest = [] \<or> \<not> is_newline (hd rest))
                \<and> split_separator [] str = b # split_separator [] rest)"
  proof (cases "no_separator str")
    case True
    then show ?thesis
      using split_no_separator[of str "[]"] by (cases "str = []") simp_all
  next
    case False
    with first_run_exists[of str] obtain b n rest where
      d: "str = b @ replicate n (CHR 0x0A) @ rest" "no_separator b"
        "b = [] \<or> \<not> is_newline (last b)" "2 \<le> n" "rest = [] \<or> \<not> is_newline (hd rest)"
      by blast
    have "split_separator [] str = b # split_separator [] rest"
      unfolding d(1) using split_first_run[OF d(2-5)] .
    with d show ?thesis by blast
  qed
  have rd: "add_path E pkg path r = add_blocks E pkg (split_separator [] contents) (r, [])" for r
    using assms by (simp add: add_path_def isError_def)
  have g1: "fst (add_path E pkg path r)
           = add_calls (map (\<lambda>b. (pkg, block_entry E pkg b)) (split_separator [] contents)) r"
    unfolding rd using add_blocks_calls[of E pkg "split_separator [] contents" "(r, [])"] by simp
  have g2: "size_registry (fst (add_path E pkg path empty_registry))
           = card (block_name E ` set (split_separator [] contents))"
    unfolding rd by (rule size_add_blocks_empty)
  have g3: "split_separator [] contents = map fst bs @ [final]"
    if "contents = join_blocks bs final \<and> list_all separated bs \<and> is_block final"
    using that split_join_blocks[of bs final] by simp
  have g4: "split_separator [] contents = [b1, b2]
          \<and> fst (add_path E pkg path r)
               = add_fields pkg (snd (parseDcfFile E b2 True))
                   (add_fields pkg (snd (parseDcfFile E b1 True)) r)
          \<and> size_registry (fst (add_path E pkg path empty_registry))
               = (if block_name E b1 = block_name E b2 then 1 else 2)"
    if two: "contents = b1 @ replicate 4 (CHR 0x0A) @ b2 \<and> separated (b1, 4) \<and> is_block b2"
  proof -
    have c: "contents = join_blocks [(b1, 4)] b2" using two by simp
    have sp: "split_separator [] contents = [b1, b2]"
      unfolding c using split_join_blocks[of "[(b1, 4)]" b2] two by simp
    have "fst (add_path E pkg path r)
               = add_fields pkg (snd (parseDcfFile E b2 True))
                   (add_fields pkg (snd (parseDcfFile E b1 True)) r)"
      unfolding rd sp by (simp add: parseConnectionsDcf_def split: prod.splits)
    moreover have "size_registry (fst (add_path E pkg path empty_registry))
               = (if block_name E b1 = block_name E b2 then 1 else 2)"
      unfolding g2 sp by simp
    ultimately show ?thesis using sp by simp
  qed
  show ?thesis
    using cases g1 g2 g3 g4 by (intro conjI impI) blast+
qed

theorem add_path_blocks_of_contents_witness:
  "readStringFromFile demo_env ''lib/spaced''
     = (Success, ''Name: pg\<newline>\<newline>\<newline>\<newline>Name: sqlite'')
   \<and> separated (''Name: pg'', 4) \<and> is_block ''Name: sqlite''
   \<and> split_separator [] ''Name: pg\<newline>\<newline>\<newline>\<newline>Name: sqlite''
        = [''Name: pg'', ''Name: sqlite'']
   \<and> size_registry (fst (add_path demo_env ''odbc'' ''lib/spaced'' empty_registry)) = 2
   \<and> readStringFromFile demo_env ''lib/leading''
        = (Success, ''\<newline>\<newline>Name: pg\<newline>\<newline>'')
   \<and> split_separator [] ''\<newline>\<newline>Name: pg\<newline>\<newline>'' = [[], ''Name: pg'']
   \<and> size_registry (fst (add_path demo_env ''odbc'' ''lib/leading'' empty_registry)) = 2"
proof -
  have rd: "readStringFromFile demo_env ''lib/spaced''
     = (Success, ''Name: pg\<newline>\<newline>\<newline>\<newline>Name: sqlite'')"
    by (simp add: demo_env_def demo_files_def)
  have rl: "readStringFromFile demo_env ''lib/leading''
        = (Success, ''\<newline>\<newline>Name: pg\<newline>\<newline>'')"
    by (simp add: demo_env_def demo_files_def)
  have sep: "separated (''Name: pg'', 4)"
    by (simp add: separated_def is_block_def is_newline_def)
  have fin: "is_block ''Name: sqlite''"
    by (simp add: is_block_def is_newline_def)
  have c: "''Name: pg\<newline>\<newline>\<newline>\<newline>Name: sqlite''
      = ''Name: pg'' @ replicate 4 (CHR 0x0A) @ ''Name: sqlite''"
    by (simp add: numeral_eq_Suc)
  note t = add_path_blocks_of_contents [OF rd, of "[]" "''odbc''" empty_registry "[]" "[]"
      "''Name: pg''" "''Name: sqlite''"]
  have hyp: "''Name: pg\<newline>\<newline>\<newline>\<newline>Name: sqlite''
      = ''Name: pg'' @ replicate 4 (CHR 0x0A) @ ''Name: sqlite''
      \<and> separated (''Name: pg'', 4) \<and> is_block ''Name: sqlite''"
    by (intro conjI c sep fin)
  note two = t [THEN conjunct2, THEN conjunct2, THEN conjunct2, THEN conjunct2, THEN mp, OF hyp]
  have s: "split_separator [] ''Name: pg\<newline>\<newline>\<newline>\<newline>Name: sqlite''
        = [''Name: pg'', ''Name: sqlite'']"
    using two [THEN conjunct1] .
  have "size_registry (fst (add_path demo_env ''odbc'' ''lib/spaced'' empty_registry))
            = (if block_name demo_env ''Name: pg'' = block_name demo_env ''Name: sqlite''
               then 1 else 2)"
    using two [THEN conjunct2, THEN conjunct2] .
  then have n: "size_registry (fst (add_path demo_env ''odbc'' ''lib/spaced'' empty_registry)) = 2"
    by (simp only: demo_names) simp
  have sl: "split_separator [] ''\<newline>\<newline>Name: pg\<newline>\<newline>'' = [[], ''Name: pg'']"
    by (simp add: is_newline_def)
  have "size_registry (fst (add_path demo_env ''odbc'' ''lib/leading'' empty_registry))
          = card (block_name demo_env ` set (split_separator [] ''\<newline>\<newline>Name: pg\<newline>\<newline>''))"
    using add_path_blocks_of_contents [OF rl, of "[]" "''odbc''" empty_registry "[]" "[]" "[]" "[]",
        THEN conjunct2, THEN conjunct2, THEN conjunct1] .
  then have m: "size_registry (fst (add_path demo_env ''odbc'' ''lib/leading'' empty_registry)) = 2"
    by (simp only: sl) (simp add: demo_names)
  show ?thesis
    by (intro conjI rd sep fin s n rl sl m)
qed

text \<open>
  C5 as stated fails: two blocks of the same name, three blank lines apart, leave one entry.
\<close>

theorem same_name_blocks_counterexample:
  "readStringFromFile demo_env ''lib/twice''
     = (Success, ''Name: pg\<newline>\<newline>\<newline>\<newline>Name: pg'')
   \<and> split_separator [] ''Name: pg\<newline>\<newline>\<newline>\<newline>Name: pg'' = [''Name: pg'', ''Name: pg'']
   \<and> size_registry (fst (add_path demo_env ''odbc'' ''lib/twice'' empty_registry)) = 1"
proof -
  have rd: "readStringFromFile demo_env ''lib/twice''
     = (Success, ''Name: pg\<newline>\<newline>\<newline>\<newline>Name: pg'')"
    by (simp add: demo_env_def demo_files_def)
  have sp: "split_separator [] ''Name: pg\<newline>\<newline>\<newline>\<newline>Name: pg'' = [''Name: pg'', ''Name: pg'']"
    by (simp add: is_newline_def)
  have "size_registry (fst (add_path demo_env ''odbc'' ''lib/twice'' empty_registry)) = 1"
    by (simp add: add_path_def rd isError_def sp size_add_blocks_empty demo_names
        del: add_blocks.simps split_separator.simps)
  then show ?thesis using rd sp by simp
qed

lemma finish_effect:
  assumes "pRegistry s = Some a" and "a < length (heap s)"
  shows "\<exists>s'. finish E s = Some s'
           \<and> heap s' = (heap s)[a := with_dev_entry E (heap s ! a)]
           \<and> pRegistry s' = Some a
           \<and> s_pCurrentConnectionsRegistry s' = a
           \<and> continuations s' = continuations s
           \<and> responses s' = responses s @
                map (success_call (toJson (with_dev_entry E (heap s ! a)))) (continuations s)
           \<and> running_flag s' = False
           \<and> scheduled s' = scheduled s"
proof -
  from completed_effect[OF assms, of E] obtain s' where
    "onIndexingCompleted E s = Some s'"
    "heap s' = (heap s)[a := with_dev_entry E (heap s ! a)]"
    "pRegistry s' = Some a" "s_pCurrentConnectionsRegistry s' = a"
    "continuations s' = continuations s"
    "responses s' = responses s @
       map (success_call (toJson (with_dev_entry E (heap s ! a)))) (continuations s)"
    "scheduled s' = scheduled s"
    by blast
  then show ?thesis by (simp add: finish_def)
qed

lemma walk_then_completed:
  assumes "pRegistry s = Some a" and "a < length (heap s)"
  shows "\<exists>s1 s2. walk E found s = Some s1 \<and> onIndexingCompleted E s1 = Some s2
           \<and> registry_at s1 a = Some (indexed E found (heap s ! a))
           \<and> heap s2 = (heap s)[a := with_dev_entry E (indexed E found (heap s ! a))]
           \<and> pRegistry s2 = Some a
           \<and> s_pCurrentConnectionsRegistry s1 = s_pCurrentConnectionsRegistry s
           \<and> s_pCurrentConnectionsRegistry s2 = a
           \<and> continuations s2 = continuations s
           \<and> responses s2 = responses s @
                map (success_call (toJson (with_dev_entry E (indexed E found (heap s ! a)))))
                  (continuations s)"
proof -
  from walk_effect[OF assms, of E found] obtain s1 where s1:
    "walk E found s = Some s1"
    "heap s1 = (heap s)[a := indexed E found (heap s ! a)]"
    "pRegistry s1 = Some a"
    "s_pCurrentConnectionsRegistry s1 = s_pCurrentConnectionsRegistry s"
    "continuations s1 = continuations s" "responses s1 = responses s"
    by blast
  have l1: "a < length (heap s1)" using s1(2) assms(2) by simp
  from completed_effect[OF s1(3) l1, of E] obtain s2 where s2:
    "onIndexingCompleted E s1 = Some s2"
    "heap s2 = (heap s1)[a := with_dev_entry E (heap s1 ! a)]"
    "pRegistry s2 = Some a" "s_pCurrentConnectionsRegistry s2 = a"
    "continuations s2 = continuations s1"
    "responses s2 = responses s1 @
       map (success_call (toJson (with_dev_entry E (heap s1 ! a)))) (continuations s1)"
    by blast
  have at: "heap s1 ! a = indexed E found (heap s ! a)"
    using s1(2) assms(2) by simp
  have "registry_at s1 a = Some (indexed E found (heap s ! a))"
    using l1 at by (simp add: registry_at_def)
  moreover have "heap s2 = (heap s)[a := with_dev_entry E (indexed E found (heap s ! a))]"
    using s2(2) s1(2) at by simp
  ultimately show ?thesis
    using s1 s2 at by simp
qed

lemma contains_add_blocks:
  "b \<in> set bs \<Longrightarrow> contains (fst (add_blocks E pkg bs rl)) pkg (block_name E b)"
  by (simp add: contains_keys keys_add_blocks)

lemma demo_read:
  "readStringFromFile demo_env ''lib/none'' = (Failure ''no such file'', [])"
  "readStringFromFile demo_env ''lib/bad'' = (Success, ''no descriptor here\<newline>\<newline>Name: ok'')"
  "readStringFromFile demo_env ''lib/odbc'' = (Success, ''Name: pg\<newline>\<newline>Name: sqlite\<newline>'')"
  by (simp_all add: demo_env_def demo_files_def)

lemma demo_split:
  "split_separator [] ''no descriptor here\<newline>\<newline>Name: ok'' = [''no descriptor here'', ''Name: ok'']"
  "split_separator [] ''Name: pg\<newline>\<newline>Name: sqlite\<newline>'' = [''Name: pg'', ''Name: sqlite\<newline>'']"
  by (simp_all add: is_newline_def)

lemma demo_parse_error:
  "fst (parseDcfFile demo_env ''no descriptor here'' True) = Failure ''invalid line''"
  "fst (parseDcfFile demo_env ''Name: ok'' True) = Success"
  by (simp_all add: demo_env_def parseDcfFile_spec_def is_newline_def record_field_def
      trim_copy_def is_space_def)

text \<open>
  C4 (as amended). A read error is logged and the file adds nothing. A parse error on a
  block is logged, and the block is not skipped: \<open>add(pkg, fields)\<close> is still called with
  the fields the parser stored, so the block has an entry, under the name those fields
  give, the empty name if they give none. Neither error ends the work: every block of the
  file is added, in order, and a walk over any files, followed by the completion step,
  returns.
\<close>

theorem errors_logged_not_fatal:
  "(isError (fst (readStringFromFile E path)) \<longrightarrow>
      add_path E pkg path r = (r, [fst (readStringFromFile E path)]))
   \<and> (\<not> isError (fst (readStringFromFile E path)) \<longrightarrow>
        fst (add_path E pkg path r)
          = add_calls (map (\<lambda>b. (pkg, block_entry E pkg b))
              (split_separator [] (snd (readStringFromFile E path)))) r
      \<and> snd (add_path E pkg path r)
          = filter isError (map (\<lambda>b. fst (parseDcfFile E b True))
              (split_separator [] (snd (readStringFromFile E path))))
      \<and> (\<forall>b \<in> set (split_separator [] (snd (readStringFromFile E path))).
            contains (fst (add_path E pkg path r)) pkg (block_name E b)))
   \<and> (pRegistry s = Some a \<and> a < length (heap s) \<longrightarrow>
        (\<exists>s1 s2. walk E found s = Some s1 \<and> onIndexingCompleted E s1 = Some s2
           \<and> registry_at s1 a = Some (indexed E found (heap s ! a))))"
proof (intro conjI impI)
  assume "isError (fst (readStringFromFile E path))"
  then show "add_path E pkg path r = (r, [fst (readStringFromFile E path)])"
    by (rule add_path_read_error)
next
  assume ok: "\<not> isError (fst (readStringFromFile E path))"
  show "fst (add_path E pkg path r)
          = add_calls (map (\<lambda>b. (pkg, block_entry E pkg b))
              (split_separator [] (snd (readStringFromFile E path)))) r"
    unfolding add_path_read[OF ok]
    using add_blocks_calls[of E pkg "split_separator [] (snd (readStringFromFile E path))" "(r, [])"]
    by simp
  show "snd (add_path E pkg path r)
          = filter isError (map (\<lambda>b. fst (parseDcfFile E b True))
              (split_separator [] (snd (readStringFromFile E path))))"
    unfolding add_path_read[OF ok]
    using add_blocks_snd[of E pkg "split_separator [] (snd (readStringFromFile E path))" "(r, [])"]
    by simp
  show "\<forall>b \<in> set (split_separator [] (snd (readStringFromFile E path))).
            contains (fst (add_path E pkg path r)) pkg (block_name E b)"
    unfolding add_path_read[OF ok] by (simp add: contains_add_blocks)
next
  assume "pRegistry s = Some a \<and> a < length (heap s)"
  then have "pRegistry s = Some a" "a < length (heap s)" by simp_all
  from walk_then_completed[OF this, of E found]
  show "\<exists>s1 s2. walk E found s = Some s1 \<and> onIndexingCompleted E s1 = Some s2
           \<and> registry_at s1 a = Some (indexed E found (heap s ! a))"
    by blast
qed

theorem errors_logged_not_fatal_witness:
  "isError (fst (readStringFromFile demo_env ''lib/none''))
   \<and> add_path demo_env ''x'' ''lib/none'' empty_registry = (empty_registry, [Failure ''no such file''])
   \<and> \<not> isError (fst (readStringFromFile demo_env ''lib/bad''))
   \<and> snd (add_path demo_env ''x'' ''lib/bad'' empty_registry) = [Failure ''invalid line'']
   \<and> contains (fst (add_path demo_env ''x'' ''lib/bad'' empty_registry)) ''x'' ''ok''
   \<and> pRegistry (start initial_session) = Some 1
   \<and> 1 < length (heap (start initial_session))
   \<and> (\<exists>s1 s2. walk demo_env [(''x'', ''lib/none''), (''x'', ''lib/bad'')] (start initial_session) = Some s1
          \<and> onIndexingCompleted demo_env s1 = Some s2)"
proof -
  have e: "isError (fst (readStringFromFile demo_env ''lib/none''))"
    by (simp add: demo_read isError_def)
  have ok: "\<not> isError (fst (readStringFromFile demo_env ''lib/bad''))"
    by (simp add: demo_read isError_def)
  have st: "pRegistry (start initial_session) = Some 1 \<and> 1 < length (heap (start initial_session))"
    by (simp add: start_def onIndexingStarted_def initial_session_def)
  note none = errors_logged_not_fatal [of demo_env "''lib/none''" "''x''" empty_registry
      "start initial_session" 1 "[(''x'', ''lib/none''), (''x'', ''lib/bad'')]"]
  note bad = errors_logged_not_fatal [of demo_env "''lib/bad''" "''x''" empty_registry
      "start initial_session" 1 "[(''x'', ''lib/none''), (''x'', ''lib/bad'')]"]
  have a: "add_path demo_env ''x'' ''lib/none'' empty_registry = (empty_registry, [Failure ''no such file''])"
    using none [THEN conjunct1, THEN mp, OF e] by (simp add: demo_read)
  have b: "snd (add_path demo_env ''x'' ''lib/bad'' empty_registry) = [Failure ''invalid line'']"
    using bad [THEN conjunct2, THEN conjunct1, THEN mp, OF ok, THEN conjunct2, THEN conjunct1]
    by (simp add: demo_read demo_split demo_parse_error isError_def del: split_separator.simps)
  have "\<forall>b \<in> set (split_separator [] (snd (readStringFromFile demo_env ''lib/bad''))).
            contains (fst (add_path demo_env ''x'' ''lib/bad'' empty_registry)) ''x'' (block_name demo_env b)"
    using bad [THEN conjunct2, THEN conjunct1, THEN mp, OF ok, THEN conjunct2, THEN conjunct2] .
  then have c: "contains (fst (add_path demo_env ''x'' ''lib/bad'' empty_registry)) ''x'' ''ok''"
    by (simp add: demo_read demo_split demo_names del: split_separator.simps)
  have d: "\<exists>s1 s2. walk demo_env [(''x'', ''lib/none''), (''x'', ''lib/bad'')] (start initial_session) = Some s1
          \<and> onIndexingCompleted demo_env s1 = Some s2"
    using none [THEN conjunct2, THEN conjunct2, THEN mp, OF st] by blast
  show ?thesis
    using e a ok b c st d by (intro conjI) simp_all
qed

text \<open>
  C4 as stated fails: the first block of \<open>lib/bad\<close> does not parse, the error is logged,
  and the registry holds an entry for it, under the empty name, beside that of the second
  block.
\<close>

theorem parse_error_block_counterexample:
  "snd (readStringFromFile demo_env ''lib/bad'') = ''no descriptor here\<newline>\<newline>Name: ok''
   \<and> split_separator [] ''no descriptor here\<newline>\<newline>Name: ok'' = [''no descriptor here'', ''Name: ok'']
   \<and> isError (fst (parseDcfFile demo_env ''no descriptor here'' True))
   \<and> snd (add_path demo_env ''x'' ''lib/bad'' empty_registry) = [Failure ''invalid line'']
   \<and> contains (fst (add_path demo_env ''x'' ''lib/bad'' empty_registry)) ''x'' []
   \<and> size_registry (fst (add_path demo_env ''x'' ''lib/bad'' empty_registry)) = 2"
proof -
  have p: "add_path demo_env ''x'' ''lib/bad'' empty_registry
           = add_blocks demo_env ''x'' [''no descriptor here'', ''Name: ok''] (empty_registry, [])"
    by (simp add: add_path_def demo_read isError_def demo_split
        del: add_blocks.simps split_separator.simps)
  have "snd (add_path demo_env ''x'' ''lib/bad'' empty_registry) = [Failure ''invalid line'']"
    unfolding p by (simp add: add_blocks_snd demo_parse_error isError_def del: add_blocks.simps)
  moreover have "contains (fst (add_path demo_env ''x'' ''lib/bad'' empty_registry)) ''x'' []"
    unfolding p using contains_add_blocks[of "''no descriptor here''" "[''no descriptor here'', ''Name: ok'']" demo_env "''x''" "(empty_registry, [])"]
    by (simp add: demo_names del: add_blocks.simps)
  moreover have "size_registry (fst (add_path demo_env ''x'' ''lib/bad'' empty_registry)) = 2"
    unfolding p by (simp add: size_add_blocks_empty demo_names del: add_blocks.simps)
  ultimately show ?thesis
    by (simp add: demo_read demo_split demo_parse_error isError_def del: split_separator.simps)
qed

subsection \<open>Claims about serialisation\<close>

lemma keyed_empty: "keyed empty_registry"
  by (simp add: keyed_def empty_registry_def)

lemma keyed_add_entry:
  "keyed r \<Longrightarrow> entry_package e = p \<Longrightarrow> keyed (add_entry p e r)"
  by (auto simp add: keyed_def add_entry_def intro: fmpred_upd)

lemma keyed_add_calls:
  "keyed r \<Longrightarrow> list_all (\<lambda>c. entry_package (snd c) = fst c) calls \<Longrightarrow> keyed (add_calls calls r)"
  unfolding add_calls_def
  by (induction calls arbitrary: r) (simp_all add: keyed_add_entry)

lemma keyed_add_path: "keyed r \<Longrightarrow> keyed (fst (add_path E pkg path r))"
proof (cases "isError (fst (readStringFromFile E path))")
  case True
  assume "keyed r"
  then show ?thesis by (simp add: add_path_read_error[OF True])
next
  case False
  assume "keyed r"
  then show ?thesis
    unfolding add_path_read[OF False] add_blocks_calls
    by (intro keyed_add_calls) (simp_all add: list_all_iff block_entry_def)
qed

lemma keyed_indexed: "keyed r \<Longrightarrow> keyed (indexed E found r)"
  by (induction found arbitrary: r) (auto simp add: keyed_add_path)

lemma keyed_with_dev_entry: "keyed r \<Longrightarrow> keyed (with_dev_entry E r)"
  by (simp add: with_dev_entry_def keyed_add_path)

lemma json_member_toJson:
  "json_member (toJson r) k = map_option entry_toJson (fmlookup (connections r) k)"
  by (simp add: toJson_def)

lemma entry_toJson_members:
  "entry_toJson e =
     JObject (fmap_of_list [(''name'', JString (entry_name e)), (''package'', JString (entry_package e))])"
  unfolding entry_toJson_def
  by (simp add: fmupd_reorder_neq)

lemma keyed_json:
  assumes "keyed r" and "json_member (toJson r) k = Some j"
  shows "\<exists>p n. k = p @ ''::'' @ n
           \<and> j = JObject (fmap_of_list [(''name'', JString n), (''package'', JString p)])"
proof -
  from assms(2) obtain e where e: "fmlookup (connections r) k = Some e" "j = entry_toJson e"
    by (auto simp add: json_member_toJson)
  from assms(1) e(1) have "k = constructKey (entry_package e) (entry_name e)"
    unfolding keyed_def by (rule fmpredD)
  then show ?thesis
    using e(2) by (auto simp add: constructKey_def entry_toJson_members)
qed

text \<open>
  C7. \<open>toJson()\<close> gives an object with one member for each key of the registry, the
  serialised entry stored there, which is the object of its \<open>name\<close> and its \<open>package\<close>;
  in a registry that an indexing pass built, each key is \<open>package::name\<close> of the
  entry it holds. The text \<open>Name: pg\n\nName: sqlite\n\<close>, added for the package
  \<open>odbc\<close>, gives the two members \<open>odbc::pg\<close> and \<open>odbc::sqlite\<close> of the example.
\<close>

theorem registry_json_by_composite_key:
  assumes "readStringFromFile E path = (Success, ''Name: pg\<newline>\<newline>Name: sqlite\<newline>'')"
    and "fmlookup (snd (parseDcfFile E ''Name: pg'' True)) ''Name'' = Some ''pg''"
    and "fmlookup (snd (parseDcfFile E ''Name: sqlite\<newline>'' True)) ''Name'' = Some ''sqlite''"
  shows "toJson (fst (add_path E ''odbc'' path empty_registry)) =
           JObject (fmap_of_list
             [(''odbc::pg'', JObject (fmap_of_list
                 [(''name'', JString ''pg''), (''package'', JString ''odbc'')])),
              (''odbc::sqlite'', JObject (fmap_of_list
                 [(''name'', JString ''sqlite''), (''package'', JString ''odbc'')]))])
     \<and> json_member (toJson r) k = map_option entry_toJson (fmlookup (connections r) k)
     \<and> entry_toJson e = JObject (fmap_of_list
          [(''name'', JString (entry_name e)), (''package'', JString (entry_package e))])
     \<and> (json_member (toJson (with_dev_entry E (indexed E found empty_registry))) k = Some j \<longrightarrow>
          (\<exists>p n. k = p @ ''::'' @ n
             \<and> j = JObject (fmap_of_list [(''name'', JString n), (''package'', JString p)])))"
proof -
  have sp: "split_separator [] ''Name: pg\<newline>\<newline>Name: sqlite\<newline>'' = [''Name: pg'', ''Name: sqlite\<newline>'']"
    by (simp add: is_newline_def)
  have p: "fst (add_path E ''odbc'' path empty_registry)
        = add_entry ''odbc'' \<lparr>entry_name = ''sqlite'', entry_package = ''odbc''\<rparr>
            (add_entry ''odbc'' \<lparr>entry_name = ''pg'', entry_package = ''odbc''\<rparr> empty_registry)"
    using assms
    by (simp add: add_path_def isError_def sp add_blocks_fst block_entry_def block_name_def
        del: add_blocks.simps split_separator.simps)
  have "toJson (fst (add_path E ''odbc'' path empty_registry)) =
           JObject (fmap_of_list
             [(''odbc::pg'', JObject (fmap_of_list
                 [(''name'', JString ''pg''), (''package'', JString ''odbc'')])),
              (''odbc::sqlite'', JObject (fmap_of_list
                 [(''name'', JString ''sqlite''), (''package'', JString ''odbc'')]))])"
    unfolding p
    by (simp add: toJson_def add_entry_def empty_registry_def constructKey_def
        entry_toJson_members fmupd_reorder_neq fmmap_fmupd)
  moreover have "json_member (toJson (with_dev_entry E (indexed E found empty_registry))) k = Some j \<longrightarrow>
          (\<exists>p n. k = p @ ''::'' @ n
             \<and> j = JObject (fmap_of_list [(''name'', JString n), (''package'', JString p)]))"
    using keyed_json[OF keyed_with_dev_entry[OF keyed_indexed[OF keyed_empty]]] by blast
  ultimately show ?thesis
    using json_member_toJson entry_toJson_members by blast
qed

theorem registry_json_by_composite_key_witness:
  "readStringFromFile demo_env ''lib/odbc'' = (Success, ''Name: pg\<newline>\<newline>Name: sqlite\<newline>'')
   \<and> fmlookup (snd (parseDcfFile demo_env ''Name: pg'' True)) ''Name'' = Some ''pg''
   \<and> fmlookup (snd (parseDcfFile demo_env ''Name: sqlite\<newline>'' True)) ''Name'' = Some ''sqlite''
   \<and> toJson (fst (add_path demo_env ''odbc'' ''lib/odbc'' empty_registry)) =
           JObject (fmap_of_list
             [(''odbc::pg'', JObject (fmap_of_list
                 [(''name'', JString ''pg''), (''package'', JString ''odbc'')])),
              (''odbc::sqlite'', JObject (fmap_of_list
                 [(''name'', JString ''sqlite''), (''package'', JString ''odbc'')]))])"
proof -
  have rd: "readStringFromFile demo_env ''lib/odbc'' = (Success, ''Name: pg\<newline>\<newline>Name: sqlite\<newline>'')"
    by (simp add: demo_env_def demo_files_def)
  have p1: "fmlookup (snd (parseDcfFile demo_env ''Name: pg'' True)) ''Name'' = Some ''pg''"
    by (simp add: demo_env_def parseDcfFile_spec_def is_newline_def record_field_def
        trim_copy_def is_space_def)
  have p2: "fmlookup (snd (parseDcfFile demo_env ''Name: sqlite\<newline>'' True)) ''Name'' = Some ''sqlite''"
    by (simp add: demo_env_def parseDcfFile_spec_def is_newline_def record_field_def
        trim_copy_def is_space_def)
  show ?thesis
    by (intro conjI rd p1 p2 registry_json_by_composite_key [OF rd p1 p2, THEN conjunct1])
qed

subsection \<open>Claims about indexing passes\<close>

lemma indexed_append: "indexed E (xs @ ys) r = indexed E ys (indexed E xs r)"
  by (induction xs arbitrary: r) auto

lemma started_fields:
  "heap (onIndexingStarted s) = heap s @ [empty_registry]"
  "pRegistry (onIndexingStarted s) = Some (length (heap s))"
  "s_pCurrentConnectionsRegistry (onIndexingStarted s) = s_pCurrentConnectionsRegistry s"
  by (simp_all add: onIndexingStarted_def)

lemma start_fields:
  "heap (start s) = heap s @ [empty_registry]"
  "pRegistry (start s) = Some (length (heap s))"
  "s_pCurrentConnectionsRegistry (start s) = s_pCurrentConnectionsRegistry s"
  "continuations (start s) = continuations s"
  "responses (start s) = responses s"
  "running_flag (start s) = True"
  "scheduled (start s) = scheduled s"
  by (simp_all add: start_def onIndexingStarted_def)

lemma request_fields:
  "running s \<Longrightarrow>
   indexLibraryPathsWithContinuation c s = (case c of None \<Rightarrow> s | Some k \<Rightarrow> addContinuation k s)"
  by (cases c) (simp_all add: indexLibraryPathsWithContinuation_def running_def addContinuation_def)

lemma first_request:
  "indexLibraryPathsWithContinuation (Some 7) initial_session
     = \<lparr>heap = [empty_registry, empty_registry], s_pCurrentConnectionsRegistry = 0,
        pRegistry = Some 1, continuations = [7], running_flag = True, responses = [],
        scheduled = [], errorLog = []\<rparr>"
  by (simp add: indexLibraryPathsWithContinuation_def addContinuation_def running_def
      start_def onIndexingStarted_def initial_session_def)

lemma finish_keeps_continuations:
  assumes "pRegistry s = Some a" and "a < length (heap s)"
  shows "\<exists>s'. finish E s = Some s' \<and> continuations s' = continuations s
           \<and> map callee (responses s') = map callee (responses s) @ continuations s
           \<and> heap s' = (heap s)[a := with_dev_entry E (heap s ! a)]
           \<and> \<not> running s'"
proof -
  from finish_effect[OF assms, of E] obtain s' where
    "finish E s = Some s'" "continuations s' = continuations s"
    "responses s' = responses s @
       map (success_call (toJson (with_dev_entry E (heap s ! a)))) (continuations s)"
    "heap s' = (heap s)[a := with_dev_entry E (heap s ! a)]"
    "running_flag s' = False"
    by blast
  then show ?thesis
    by (simp add: success_call_def running_def comp_def)
qed

text \<open>
  While a pass is running, \<open>indexLibraryPathsWithContinuation\<close> does not call
  \<open>start()\<close>: it only queues the continuation, if there is one. No registry is allocated,
  the indexer keeps the registry of the pass in flight, and the indexer stays running.
  When the walk of that pass has gone on over any further files and the pass completes,
  the continuation queued in between is called, after those queued before it, with
  success and the serialised registry of that pass: what the pass had indexed when the
  request came, the files indexed since, and the entry of the package under development.
\<close>

lemma request_while_running:
  assumes "running s" and "pRegistry s = Some a" and "a < length (heap s)"
  shows "indexLibraryPathsWithContinuation c s
           = (case c of None \<Rightarrow> s | Some k \<Rightarrow> addContinuation k s)
     \<and> heap (indexLibraryPathsWithContinuation c s) = heap s
     \<and> pRegistry (indexLibraryPathsWithContinuation c s) = pRegistry s
     \<and> running (indexLibraryPathsWithContinuation c s)
     \<and> continuations (indexLibraryPathsWithContinuation (Some k) s) = continuations s @ [k]
     \<and> (\<exists>s1 s2. walk E found (indexLibraryPathsWithContinuation (Some k) s) = Some s1
           \<and> onIndexingCompleted E s1 = Some s2
           \<and> length (heap s2) = length (heap s)
           \<and> pRegistry s2 = Some a
           \<and> connectionsRegistry s2 = Some (with_dev_entry E (indexed E found (heap s ! a)))
           \<and> responses s2 = responses s @
                map (success_call (toJson (with_dev_entry E (indexed E found (heap s ! a)))))
                  (continuations s @ [k]))"
proof -
  let ?q = "indexLibraryPathsWithContinuation (Some k) s"
  have eq: "indexLibraryPathsWithContinuation c s
           = (case c of None \<Rightarrow> s | Some k \<Rightarrow> addContinuation k s)" for c
    using assms(1) by (rule request_fields)
  have f: "heap (indexLibraryPathsWithContinuation c s) = heap s"
    "pRegistry (indexLibraryPathsWithContinuation c s) = pRegistry s"
    "running (indexLibraryPathsWithContinuation c s)"
    "responses (indexLibraryPathsWithContinuation c s) = responses s" for c
    using assms(1) by (cases c; simp add: eq addContinuation_def running_def)+
  have q: "continuations ?q = continuations s @ [k]"
    by (simp add: eq addContinuation_def)
  have p: "pRegistry ?q = Some a" and l: "a < length (heap ?q)"
    using assms(2,3) by (simp_all add: f)
  from walk_then_completed[OF p l, of E found] obtain s1 s2 where
    "walk E found ?q = Some s1" "onIndexingCompleted E s1 = Some s2"
    "heap s2 = (heap ?q)[a := with_dev_entry E (indexed E found (heap ?q ! a))]"
    "pRegistry s2 = Some a" "s_pCurrentConnectionsRegistry s2 = a"
    "responses s2 = responses ?q @
        map (success_call (toJson (with_dev_entry E (indexed E found (heap ?q ! a)))))
          (continuations ?q)"
    by blast
  then have "walk E found ?q = Some s1 \<and> onIndexingCompleted E s1 = Some s2
           \<and> length (heap s2) = length (heap s)
           \<and> pRegistry s2 = Some a
           \<and> connectionsRegistry s2 = Some (with_dev_entry E (indexed E found (heap s ! a)))
           \<and> responses s2 = responses s @
                map (success_call (toJson (with_dev_entry E (indexed E found (heap s ! a)))))
                  (continuations s @ [k])"
    using assms(3) by (simp add: f q connectionsRegistry_def registry_at_def)
  then have "\<exists>s1 s2. walk E found ?q = Some s1 \<and> onIndexingCompleted E s1 = Some s2
           \<and> length (heap s2) = length (heap s)
           \<and> pRegistry s2 = Some a
           \<and> connectionsRegistry s2 = Some (with_dev_entry E (indexed E found (heap s ! a)))
           \<and> responses s2 = responses s @
                map (success_call (toJson (with_dev_entry E (indexed E found (heap s ! a)))))
                  (continuations s @ [k])"
    by blast
  then show ?thesis
    using eq[of c] f[of c] q by simp
qed

lemma request_while_running_example:
  "running (indexLibraryPathsWithContinuation (Some 7) initial_session)
   \<and> pRegistry (indexLibraryPathsWithContinuation (Some 7) initial_session) = Some 1
   \<and> 1 < length (heap (indexLibraryPathsWithContinuation (Some 7) initial_session))
   \<and> heap (indexLibraryPathsWithContinuation (Some 8)
         (indexLibraryPathsWithContinuation (Some 7) initial_session))
       = [empty_registry, empty_registry]
   \<and> (\<exists>s1 s2. walk demo_env [(''odbc'', ''lib/odbc'')]
           (indexLibraryPathsWithContinuation (Some 8)
             (indexLibraryPathsWithContinuation (Some 7) initial_session)) = Some s1
         \<and> onIndexingCompleted demo_env s1 = Some s2
         \<and> length (heap s2) = 2
         \<and> map callee (responses s2) = [7, 8])"
proof -
  let ?s = "indexLibraryPathsWithContinuation (Some 7) initial_session"
  have r: "running ?s" and p: "pRegistry ?s = Some 1" and l: "1 < length (heap ?s)"
    by (simp_all add: first_request running_def)
  note t = request_while_running [OF r p l, of "Some 8" 8 demo_env "[(''odbc'', ''lib/odbc'')]"]
  have h: "heap (indexLibraryPathsWithContinuation (Some 8) ?s) = [empty_registry, empty_registry]"
    using t [THEN conjunct2, THEN conjunct1] by (simp add: first_request)
  from t obtain s1 s2 where
    "walk demo_env [(''odbc'', ''lib/odbc'')] (indexLibraryPathsWithContinuation (Some 8) ?s) = Some s1"
    "onIndexingCompleted demo_env s1 = Some s2"
    "length (heap s2) = length (heap ?s)"
    "responses s2 = responses ?s @
        map (success_call (toJson (with_dev_entry demo_env
               (indexed demo_env [(''odbc'', ''lib/odbc'')] (heap ?s ! 1)))))
          (continuations ?s @ [8])"
    by blast
  then have "walk demo_env [(''odbc'', ''lib/odbc'')] (indexLibraryPathsWithContinuation (Some 8) ?s) = Some s1
         \<and> onIndexingCompleted demo_env s1 = Some s2
         \<and> length (heap s2) = 2
         \<and> map callee (responses s2) = [7, 8]"
    by (simp add: first_request success_call_def)
  then have ex: "\<exists>s1 s2. walk demo_env [(''odbc'', ''lib/odbc'')]
           (indexLibraryPathsWithContinuation (Some 8) ?s) = Some s1
         \<and> onIndexingCompleted demo_env s1 = Some s2
         \<and> length (heap s2) = 2
         \<and> map callee (responses s2) = [7, 8]"
    by (intro exI)
  show ?thesis
    by (intro conjI r p l h ex)
qed

text \<open>
  C1. While a pass is running, a request starts no second pass and only queues its
  continuation, and the pass in flight calls it with its own registry; but the queue is
  kept when a pass completes, so the continuation is called again by the next pass, with
  the registry of that pass. In the two passes on the host, the second request leaves
  the store as it was; the continuations 7 and 8 are called when the first pass
  completes, with a registry that holds \<open>odbc::pg\<close>, and once more when the second pass
  completes, with a registry that holds \<open>x::ok\<close> and not \<open>odbc::pg\<close>.
\<close>

theorem continuation_called_again_by_new_pass:
  "running (indexLibraryPathsWithContinuation (Some 7) initial_session)
   \<and> heap (indexLibraryPathsWithContinuation (Some 8)
         (indexLibraryPathsWithContinuation (Some 7) initial_session))
       = heap (indexLibraryPathsWithContinuation (Some 7) initial_session)
   \<and> map_option (\<lambda>s. map callee (responses s)) demo_two_passes = Some [7, 8, 7, 8]
   \<and> map_option (\<lambda>s. map (\<lambda>c. json_member (call_result c) ''odbc::pg'' \<noteq> None) (responses s))
         demo_two_passes = Some [True, True, False, False]
   \<and> map_option (\<lambda>s. map (\<lambda>c. json_member (call_result c) ''x::ok'' \<noteq> None) (responses s))
         demo_two_passes = Some [False, False, True, True]"
proof -
  have r: "running (indexLibraryPathsWithContinuation (Some 7) initial_session)"
    by (simp add: first_request running_def)
  have h: "heap (indexLibraryPathsWithContinuation (Some 8)
         (indexLibraryPathsWithContinuation (Some 7) initial_session))
       = heap (indexLibraryPathsWithContinuation (Some 7) initial_session)"
    using request_fields[OF r, of "Some 8"] by (simp add: addContinuation_def)
  have a: "map_option (\<lambda>s. map callee (responses s)) demo_two_passes = Some [7, 8, 7, 8]"
    by code_simp
  have b: "map_option (\<lambda>s. map (\<lambda>c. json_member (call_result c) ''odbc::pg'' \<noteq> None) (responses s))
         demo_two_passes = Some [True, True, False, False]"
    by code_simp
  have c: "map_option (\<lambda>s. map (\<lambda>c. json_member (call_result c) ''x::ok'' \<noteq> None) (responses s))
         demo_two_passes = Some [False, False, True, True]"
    by code_simp
  show ?thesis
    by (intro conjI r h a b c)
qed

text \<open>
  C2. A pass that starts in any state with a current registry, walks over any files and
  completes, leaves as current registry exactly what the pass added to an empty registry:
  the blocks of the files of the walk, and those of \<open>inst/rstudio/connections.dcf\<close> of
  the active project under its package name if devtools is loaded and the file exists;
  nothing of the registry published before. At the start of the pass, at any point of the
  walk and at its end the current registry is the one published before, unchanged, and it
  is still unchanged in the store after the swap.
\<close>

theorem completed_pass_publishes_new_registry:
  assumes "s_pCurrentConnectionsRegistry s < length (heap s)"
  shows "\<exists>sm s1 s2. walk E visited (onIndexingStarted s) = Some sm \<and> walk E rest sm = Some s1
           \<and> onIndexingCompleted E s1 = Some s2
           \<and> connectionsRegistry (onIndexingStarted s) = connectionsRegistry s
           \<and> connectionsRegistry sm = connectionsRegistry s
           \<and> connectionsRegistry s1 = connectionsRegistry s
           \<and> connectionsRegistry s2
                = Some (with_dev_entry E (indexed E (visited @ rest) empty_registry))
           \<and> connectionsRegistryAsJson s2
                = Some (toJson (with_dev_entry E (indexed E (visited @ rest) empty_registry)))
           \<and> registry_at s2 (s_pCurrentConnectionsRegistry s) = connectionsRegistry s"
proof -
  let ?a = "length (heap s)"
  let ?c = "s_pCurrentConnectionsRegistry s"
  have p0: "pRegistry (onIndexingStarted s) = Some ?a" and l0: "?a < length (heap (onIndexingStarted s))"
    by (simp_all add: started_fields)
  have cur: "connectionsRegistry s = Some (heap s ! ?c)"
    using assms by (simp add: connectionsRegistry_def registry_at_def)
  have c0: "connectionsRegistry (onIndexingStarted s) = connectionsRegistry s"
    using assms by (simp add: connectionsRegistry_def registry_at_def started_fields nth_append)
  from walk_effect[OF p0 l0, of E visited] obtain sm where sm:
    "walk E visited (onIndexingStarted s) = Some sm"
    "heap sm = (heap (onIndexingStarted s))[?a := indexed E visited (heap (onIndexingStarted s) ! ?a)]"
    "pRegistry sm = Some ?a"
    "s_pCurrentConnectionsRegistry sm = s_pCurrentConnectionsRegistry (onIndexingStarted s)"
    by blast
  have hm: "heap sm = heap s @ [indexed E visited empty_registry]"
    using sm(2) by (simp add: started_fields)
  have cm: "connectionsRegistry sm = connectionsRegistry s"
    using assms by (simp add: connectionsRegistry_def registry_at_def sm(4) hm started_fields nth_append)
  have lm: "?a < length (heap sm)" by (simp add: hm)
  from walk_then_completed[OF sm(3) lm, of E rest] obtain s1 s2 where s12:
    "walk E rest sm = Some s1" "onIndexingCompleted E s1 = Some s2"
    "registry_at s1 ?a = Some (indexed E rest (heap sm ! ?a))"
    "heap s2 = (heap sm)[?a := with_dev_entry E (indexed E rest (heap sm ! ?a))]"
    "s_pCurrentConnectionsRegistry s1 = s_pCurrentConnectionsRegistry sm"
    "s_pCurrentConnectionsRegistry s2 = ?a"
    by blast
  from walk_effect[OF sm(3) lm, of E rest] s12(1) have h1:
    "heap s1 = (heap sm)[?a := indexed E rest (heap sm ! ?a)]"
    by auto
  have c1: "connectionsRegistry s1 = connectionsRegistry s"
    using assms
    by (simp add: connectionsRegistry_def registry_at_def s12(5) sm(4) h1 hm started_fields nth_append)
  have h2: "heap s2 = heap s @ [with_dev_entry E (indexed E (visited @ rest) empty_registry)]"
    using s12(4) by (simp add: hm indexed_append)
  have c2: "connectionsRegistry s2
                = Some (with_dev_entry E (indexed E (visited @ rest) empty_registry))"
    by (simp add: connectionsRegistry_def registry_at_def s12(6) h2)
  have old: "registry_at s2 ?c = connectionsRegistry s"
    using assms by (simp add: cur registry_at_def h2 nth_append)
  show ?thesis
    using sm(1) s12(1,2) c0 cm c1 c2 old
    by (auto simp add: connectionsRegistryAsJson_def)
qed

lemma demo_pass_registry:
  "size_registry (with_dev_entry demo_env
      (indexed demo_env [(''odbc'', ''lib/odbc''), (''x'', ''lib/bad'')] empty_registry)) = 5"
  "contains (with_dev_entry demo_env
      (indexed demo_env [(''odbc'', ''lib/odbc''), (''x'', ''lib/bad'')] empty_registry))
     ''mypkg'' ''dev''"
  by code_simp+

theorem completed_pass_publishes_new_registry_witness:
  "s_pCurrentConnectionsRegistry initial_session < length (heap initial_session)
   \<and> (\<exists>sm s1 s2. walk demo_env [(''odbc'', ''lib/odbc'')] (onIndexingStarted initial_session) = Some sm
         \<and> walk demo_env [(''x'', ''lib/bad'')] sm = Some s1
         \<and> onIndexingCompleted demo_env s1 = Some s2
         \<and> connectionsRegistry sm = Some empty_registry
         \<and> connectionsRegistry s2
              = Some (with_dev_entry demo_env
                  (indexed demo_env [(''odbc'', ''lib/odbc''), (''x'', ''lib/bad'')] empty_registry)))
   \<and> size_registry (with_dev_entry demo_env
        (indexed demo_env [(''odbc'', ''lib/odbc''), (''x'', ''lib/bad'')] empty_registry)) = 5
   \<and> contains (with_dev_entry demo_env
        (indexed demo_env [(''odbc'', ''lib/odbc''), (''x'', ''lib/bad'')] empty_registry))
       ''mypkg'' ''dev''"
proof -
  have h: "s_pCurrentConnectionsRegistry initial_session < length (heap initial_session)"
    by (simp add: initial_session_def)
  have c: "connectionsRegistry initial_session = Some empty_registry"
    by (simp add: connectionsRegistry_def registry_at_def initial_session_def)
  from completed_pass_publishes_new_registry [OF h, of demo_env "[(''odbc'', ''lib/odbc'')]"
      "[(''x'', ''lib/bad'')]"]
  obtain sm s1 s2 where
    "walk demo_env [(''odbc'', ''lib/odbc'')] (onIndexingStarted initial_session) = Some sm"
    "walk demo_env [(''x'', ''lib/bad'')] sm = Some s1"
    "onIndexingCompleted demo_env s1 = Some s2"
    "connectionsRegistry sm = connectionsRegistry initial_session"
    "connectionsRegistry s2
       = Some (with_dev_entry demo_env
           (indexed demo_env ([(''odbc'', ''lib/odbc'')] @ [(''x'', ''lib/bad'')]) empty_registry))"
    by blast
  then have "walk demo_env [(''odbc'', ''lib/odbc'')] (onIndexingStarted initial_session) = Some sm
         \<and> walk demo_env [(''x'', ''lib/bad'')] sm = Some s1
         \<and> onIndexingCompleted demo_env s1 = Some s2
         \<and> connectionsRegistry sm = Some empty_registry
         \<and> connectionsRegistry s2
              = Some (with_dev_entry demo_env
                  (indexed demo_env [(''odbc'', ''lib/odbc''), (''x'', ''lib/bad'')] empty_registry))"
    using c by (simp del: walk.simps indexed.simps)
  then have ex: "\<exists>sm s1 s2. walk demo_env [(''odbc'', ''lib/odbc'')] (onIndexingStarted initial_session) = Some sm
         \<and> walk demo_env [(''x'', ''lib/bad'')] sm = Some s1
         \<and> onIndexingCompleted demo_env s1 = Some s2
         \<and> connectionsRegistry sm = Some empty_registry
         \<and> connectionsRegistry s2
              = Some (with_dev_entry demo_env
                  (indexed demo_env [(''odbc'', ''lib/odbc''), (''x'', ''lib/bad'')] empty_registry))"
    by (intro exI)
  show ?thesis
    by (intro conjI h ex demo_pass_registry)
qed

text \<open>
  C3. \<open>onIndexingCompleted\<close> calls the queued continuations in order, after the swap,
  and leaves the queue as it was. A continuation queued with the first request is called
  when the first pass completes and is still queued afterwards; when the next pass
  completes it is called a second time.
\<close>

theorem later_pass_resolves_continuation_again:
  "map_option (\<lambda>s. (continuations s, map callee (responses s)))
     (onIndexingCompleted demo_env (indexLibraryPathsWithContinuation (Some 7) initial_session))
     = Some ([7], [7])
   \<and> map_option (\<lambda>s. (continuations s, map callee (responses s)))
       (Option.bind (finish demo_env (indexLibraryPathsWithContinuation (Some 7) initial_session))
          (\<lambda>s. finish demo_env (indexLibraryPaths s)))
     = Some ([7], [7, 7])"
proof -
  let ?s0 = "indexLibraryPathsWithContinuation (Some 7) initial_session"
  have p0: "pRegistry ?s0 = Some 1" and l0: "1 < length (heap ?s0)"
    by (simp_all add: first_request)
  from finish_keeps_continuations[OF p0 l0, of demo_env] obtain s1 where s1:
    "finish demo_env ?s0 = Some s1" "continuations s1 = continuations ?s0"
    "map callee (responses s1) = map callee (responses ?s0) @ continuations ?s0"
    "heap s1 = (heap ?s0)[1 := with_dev_entry demo_env (heap ?s0 ! 1)]"
    "\<not> running s1"
    by blast
  from s1(1) obtain s1' where s1': "onIndexingCompleted demo_env ?s0 = Some s1'"
    and flag: "s1 = s1'\<lparr>running_flag := False\<rparr>"
    by (auto simp add: finish_def)
  let ?s2 = "indexLibraryPaths s1"
  have s2: "?s2 = start s1"
    using s1(5) by (simp add: indexLibraryPaths_def indexLibraryPathsWithContinuation_def)
  have p2: "pRegistry ?s2 = Some 2" and l2: "2 < length (heap ?s2)"
    by (simp_all add: s2 start_fields s1(4) first_request)
  from finish_keeps_continuations[OF p2 l2, of demo_env] obtain s3 where s3:
    "finish demo_env ?s2 = Some s3" "continuations s3 = continuations ?s2"
    "map callee (responses s3) = map callee (responses ?s2) @ continuations ?s2"
    by blast
  have a: "continuations s1 = [7]" "map callee (responses s1) = [7]"
    using s1(2,3) by (simp_all add: first_request)
  have a': "continuations s1' = [7]" "map callee (responses s1') = [7]"
    using a by (simp_all add: flag)
  have b: "continuations s3 = [7]" "map callee (responses s3) = [7, 7]"
    using s3(2,3) a by (simp_all add: s2 start_fields)
  show ?thesis
    using s1(1) s1' s3(1) a a' b by simp
qed

end
